theory Spec2Isabelle
  imports Main "HOL-Library.Monad_Syntax"
begin

section \<open>Regular expressions of the script\<close>

text \<open>
  The script tests surface forms and relation labels with Python's \<^verbatim>\<open>re.fullmatch\<close> and
  \<^verbatim>\<open>re.match\<close>. Its patterns use literals, character classes, \<^verbatim>\<open>?\<close>, \<^verbatim>\<open>|\<close>,
  grouping and one \<^verbatim>\<open>.*\<close>. They are embedded as terms of \<open>rx\<close> and matched with
  derivatives: \<open>fullmatch\<close> holds when the whole string is in the pattern's language,
  \<open>rmatch\<close> (Python's \<^verbatim>\<open>re.match\<close>) when some prefix of it is.
\<close>

datatype rx =
    Eps
  | Chr char
  | Cls "char list"
  | Dot
  | Cat rx rx
  | Alt rx rx
  | Opt rx
  | Star rx
  | Void

fun nullable :: "rx \<Rightarrow> bool" where
  "nullable Eps = True"
| "nullable (Chr c) = False"
| "nullable (Cls cs) = False"
| "nullable Dot = False"
| "nullable (Cat a b) = (nullable a \<and> nullable b)"
| "nullable (Alt a b) = (nullable a \<or> nullable b)"
| "nullable (Opt a) = True"
| "nullable (Star a) = True"
| "nullable Void = False"

text \<open>\<open>Dot\<close> is Python's \<^verbatim>\<open>.\<close>: any character but the newline (code 10).\<close>

fun deriv :: "char \<Rightarrow> rx \<Rightarrow> rx" where
  "deriv c Eps = Void"
| "deriv c (Chr d) = (if c = d then Eps else Void)"
| "deriv c (Cls ds) = (if c \<in> set ds then Eps else Void)"
| "deriv c Dot = (if c = CHR 0x0A then Void else Eps)"
| "deriv c (Cat a b) =
     (if nullable a then Alt (Cat (deriv c a) b) (deriv c b) else Cat (deriv c a) b)"
| "deriv c (Alt a b) = Alt (deriv c a) (deriv c b)"
| "deriv c (Opt a) = deriv c a"
| "deriv c (Star a) = Cat (deriv c a) (Star a)"
| "deriv c Void = Void"

fun fullmatch :: "rx \<Rightarrow> string \<Rightarrow> bool" where
  "fullmatch r [] = nullable r"
| "fullmatch r (c # cs) = fullmatch (deriv c r) cs"

fun rmatch :: "rx \<Rightarrow> string \<Rightarrow> bool" where
  "rmatch r [] = nullable r"
| "rmatch r (c # cs) = (nullable r \<or> rmatch (deriv c r) cs)"

text \<open>A literal word, and the concatenation of a list of patterns.\<close>

fun lit :: "string \<Rightarrow> rx" where
  "lit [] = Eps"
| "lit [c] = Chr c"
| "lit (c # cs) = Cat (Chr c) (lit cs)"

fun cats :: "rx list \<Rightarrow> rx" where
  "cats [] = Eps"
| "cats [r] = r"
| "cats (r # rs) = Cat r (cats rs)"

fun alts :: "rx list \<Rightarrow> rx" where
  "alts [] = Void"
| "alts [r] = r"
| "alts (r # rs) = Alt r (alts rs)"

text \<open>
  The language of a pattern, as a set of strings; \<open>fullmatch\<close> and \<open>rmatch\<close> are
  shown below to decide membership of the string and of one of its prefixes.
\<close>

inductive_set star_lang :: "string set \<Rightarrow> string set" for L :: "string set" where
  star_nil: "[] \<in> star_lang L"
| star_app: "u \<in> L \<Longrightarrow> v \<in> star_lang L \<Longrightarrow> u @ v \<in> star_lang L"

fun rx_lang :: "rx \<Rightarrow> string set" where
  "rx_lang Eps = {[]}"
| "rx_lang (Chr c) = {[c]}"
| "rx_lang (Cls cs) = {[c] | c. c \<in> set cs}"
| "rx_lang Dot = {[c] | c. c \<noteq> CHR 0x0A}"
| "rx_lang (Cat a b) = {u @ v | u v. u \<in> rx_lang a \<and> v \<in> rx_lang b}"
| "rx_lang (Alt a b) = rx_lang a \<union> rx_lang b"
| "rx_lang (Opt a) = insert [] (rx_lang a)"
| "rx_lang (Star a) = star_lang (rx_lang a)"
| "rx_lang Void = {}"

section \<open>Strings\<close>

text \<open>
  A Python \<^verbatim>\<open>str\<close> is modelled as a \<open>string\<close> whose characters are code points
  below 256 (Latin-1), which covers every character the script's patterns name.
  On that range \<^verbatim>\<open>str.lower()\<close> maps A-Z and the accented capitals U+00C0-U+00DE
  (but not the multiplication sign U+00D7) 32 places up and leaves the rest alone.
\<close>

definition lower_char :: "char \<Rightarrow> char" where
  "lower_char c =
     (let n = (of_char c :: nat)
      in if (65 \<le> n \<and> n \<le> 90) \<or> (192 \<le> n \<and> n \<le> 222 \<and> n \<noteq> 215)
         then char_of (n + 32) else c)"

definition lower :: "string \<Rightarrow> string" where
  "lower s = map lower_char s"

text \<open>\<^verbatim>\<open>sep.join(xs)\<close>\<close>

fun join :: "string \<Rightarrow> string list \<Rightarrow> string" where
  "join sep [] = []"
| "join sep [x] = x"
| "join sep (x # xs) = x @ sep @ join sep xs"

text \<open>\<^verbatim>\<open>s.find(sub) > -1\<close>: \<open>sub\<close> occurs in \<open>s\<close>.\<close>

fun contains :: "string \<Rightarrow> string \<Rightarrow> bool" where
  "contains [] sub = (sub = [])"
| "contains (c # cs) sub = (take (length sub) (c # cs) = sub \<or> contains cs sub)"

text \<open>\<^verbatim>\<open>str(i)\<close> for a non-negative integer.\<close>

fun str_nat :: "nat \<Rightarrow> string" where
  "str_nat n =
     (if n < 10 then [char_of (48 + n)] else str_nat (n div 10) @ [char_of (48 + n mod 10)])"

text \<open>\<^verbatim>\<open>xs[a:b]\<close> for non-negative \<open>a\<close> and \<open>b\<close>.\<close>

definition slice :: "'a list \<Rightarrow> nat \<Rightarrow> nat \<Rightarrow> 'a list" where
  "slice xs a b = take (b - a) (drop a xs)"

declare str_nat.simps [simp del]

section \<open>The patterns\<close>

text \<open>\<^verbatim>\<open>aux.*|cop\<close> (the anchor's relation, in \<^verbatim>\<open>get_head\<close>)\<close>

definition rx_aux_cop :: rx where
  "rx_aux_cop = Alt (Cat (lit ''aux'') (Star Dot)) (lit ''cop'')"

text \<open>
  \<^verbatim>\<open>ADPS_FR\<close>: the lemma of an adposition and the pattern of its forms. The first
  lemma is the one-letter word a-grave (code 0xE0), which also stands in its pattern.
\<close>

definition ADPS_FR :: "(string \<times> rx) list" where
  "ADPS_FR =
     [([CHR 0xE0],
         Alt (cats [Cls [CHR ''a'', CHR 0xE0], Opt (Cls ''uls''), Opt (Cls ''sx'')]) (lit ''ad'')),
      (''de'',
         alts [Cat (Chr CHR ''d'') (Cls [CHR ''e'', CHR ''u'', CHR 0x27]),
               cats [lit ''de'', Opt (Chr CHR ''l''), Opt (Chr CHR ''s'')],
               lit ''dou'']),
      (''en'',
         alts [Cat (Cls ''ea'') (Cls ''nm''), lit ''el'', lit ''es'',
               Cat (Opt (Chr CHR ''o'')) (Chr CHR ''u'')]),
      (''par'', cats [Chr CHR ''p'', Cls ''ae'', Chr CHR ''r'']),
      (''pour'', cats [Chr CHR ''p'', alts [lit ''o'', lit ''u'', lit ''ou''], Chr CHR ''r''])]"

text \<open>The patterns of \<^verbatim>\<open>_is_c_element_fr\<close>, in the order of the source.\<close>

definition rx_qu :: rx where \<comment> \<open>\<^verbatim>\<open>k|qu?\<close>\<close>
  "rx_qu = Alt (Chr CHR ''k'') (Cat (Chr CHR ''q'') (Opt (Chr CHR ''u'')))"

definition rx_cui :: rx where \<comment> \<open>\<^verbatim>\<open>cu[iy]\<close>\<close>
  "rx_cui = Cat (lit ''cu'') (Cls ''iy'')"

definition rx_dont :: rx where \<comment> \<open>\<^verbatim>\<open>d[ou][nm]\<close>\<close>
  "rx_dont = cats [Chr CHR ''d'', Cls ''ou'', Cls ''nm'']"

definition rx_ou :: rx where \<comment> \<open>\<^verbatim>\<open>u|o[uU]?\<close> with u-grave (code 0xF9) for \<^verbatim>\<open>U\<close>\<close>
  "rx_ou = Alt (Chr CHR ''u'') (Cat (Chr CHR ''o'') (Opt (Cls [CHR ''u'', CHR 0xF9])))"

definition rx_comment :: rx where \<comment> \<open>\<^verbatim>\<open>comm?[ae]nt\<close>\<close>
  "rx_comment = cats [lit ''com'', Opt (Chr CHR ''m''), Cls ''ae'', lit ''nt'']"

definition rx_combien :: rx where \<comment> \<open>\<^verbatim>\<open>combien\<close>\<close>
  "rx_combien = lit ''combien''"

text \<open>The patterns of \<^verbatim>\<open>_is_prefield_clitic_fr\<close>.\<close>

definition rx_clitic_pron :: rx where
  \<comment> \<open>\<^verbatim>\<open>([mtsl][e']?)|l[aiyou]|l[aeo][sz]|l(o|u|ou|eu)r|lu[iy]\<close>\<close>
  "rx_clitic_pron =
     alts [Cat (Cls ''mtsl'') (Opt (Cls [CHR ''e'', CHR 0x27])),
           Cat (Chr CHR ''l'') (Cls ''aiyou''),
           cats [Chr CHR ''l'', Cls ''aeo'', Cls ''sz''],
           cats [Chr CHR ''l'', alts [lit ''o'', lit ''u'', lit ''ou'', lit ''eu''], Chr CHR ''r''],
           Cat (lit ''lu'') (Cls ''iy'')]"

definition rx_nsubj :: rx where \<comment> \<open>\<^verbatim>\<open>nsubj\<close>\<close>
  "rx_nsubj = lit ''nsubj''"

definition rx_nous_vous :: rx where \<comment> \<open>\<^verbatim>\<open>[nv](o|u|ou)[sz]\<close>\<close>
  "rx_nous_vous = cats [Cls ''nv'', alts [lit ''o'', lit ''u'', lit ''ou''], Cls ''sz'']"

definition rx_clitic_adv :: rx where \<comment> \<open>\<^verbatim>\<open>n[eo']?|ne[lmns]|[ae][nm]|[iy]\<close>\<close>
  "rx_clitic_adv =
     alts [Cat (Chr CHR ''n'') (Opt (Cls [CHR ''e'', CHR ''o'', CHR 0x27])),
           Cat (lit ''ne'') (Cls ''lmns''),
           Cat (Cls ''ae'') (Cls ''nm''),
           Cls ''iy'']"

text \<open>The patterns of \<^verbatim>\<open>_tag_form_fr\<close>.\<close>

definition rx_si :: rx where \<comment> \<open>\<^verbatim>\<open>s[ie'][ls]?\<close>\<close>
  "rx_si = cats [Chr CHR ''s'', Cls [CHR ''i'', CHR ''e'', CHR 0x27], Opt (Cls ''ls'')]"

text \<open>
  \<^verbatim>\<open>[gj][eo']u?[ls]?|giE|tu|[iy]l[sz]?|ell?e?[sz]?|n[ou]u?[sz]|v[ou]u?][sz]\<close>
  with e-acute (code 0xE9) for \<^verbatim>\<open>E\<close>. In the last alternative the \<^verbatim>\<open>]\<close> after \<^verbatim>\<open>u?\<close> closes no
  class, so Python reads it as the literal character \<^verbatim>\<open>]\<close>.
\<close>

definition rx_prs_nom :: rx where
  "rx_prs_nom =
     alts [cats [Cls ''gj'', Cls [CHR ''e'', CHR ''o'', CHR 0x27], Opt (Chr CHR ''u''), Opt (Cls ''ls'')],
           lit [CHR ''g'', CHR ''i'', CHR 0xE9],
           lit ''tu'',
           cats [Cls ''iy'', Chr CHR ''l'', Opt (Cls ''sz'')],
           cats [lit ''el'', Opt (Chr CHR ''l''), Opt (Chr CHR ''e''), Opt (Cls ''sz'')],
           cats [Chr CHR ''n'', Cls ''ou'', Opt (Chr CHR ''u''), Cls ''sz''],
           cats [Chr CHR ''v'', Cls ''ou'', Opt (Chr CHR ''u''), Chr CHR '']'', Cls ''sz'']]"

definition rx_dem_ce :: rx where \<comment> \<open>\<^verbatim>\<open>[cC][eo']u?\<close> with c-cedilla (code 0xE7) for \<^verbatim>\<open>C\<close>\<close>
  "rx_dem_ce =
     cats [Cls [CHR ''c'', CHR 0xE7], Cls [CHR ''e'', CHR ''o'', CHR 0x27], Opt (Chr CHR ''u'')]"

definition rx_dem :: rx where \<comment> \<open>\<^verbatim>\<open>[iy]?c[ie](ll?|s|z|st|ste[sz])\<close>\<close>
  "rx_dem =
     cats [Opt (Cls ''iy''), Chr CHR ''c'', Cls ''ie'',
           alts [Cat (Chr CHR ''l'') (Opt (Chr CHR ''l'')), lit ''s'', lit ''z'', lit ''st'',
                 Cat (lit ''ste'') (Cls ''sz'')]]"

section \<open>Tokens, the clause and the navigator\<close>

text \<open>
  A token carries its surface form (\<^verbatim>\<open>str(tok)\<close>) and the tags the script reads
  (\<^verbatim>\<open>tok.tags['UPOS']\<close> and so on; every token is taken to carry them). The token class
  is not part of the script. The model takes the script's \<^verbatim>\<open>is\<close> and \<^verbatim>\<open>in\<close> on tokens to
  compare them as objects: a token is named by the position \<^verbatim>\<open>reset_ids\<close> and
  \<^verbatim>\<open>get_ix_from_tok\<close> give it, and \<open>toks\<close> lists the tokens of the clause in that
  order. A position outside \<open>toks\<close> names a token outside the clause window; nothing is
  known about its tags.
\<close>

record token =
  form :: string
  UPOS :: string
  DEPREL :: string
  FEATS :: string

datatype tagval = Str string | StrList "string list"

type_synonym tagstore = "string \<Rightarrow> tagval option"

record Hit =
  toks :: "token list"
  kws :: "nat list"
  tags :: tagstore

text \<open>
  The analysis object \<^verbatim>\<open>an\<close>. Its class is not part of the script: the clause it holds
  and the four navigation functions the script calls are parameters of the model. They may
  be any functions, so a navigator that breaks its contract (a cycle of parents, a next
  token to the left) is an input like any other.
\<close>

record analysis =
  hit :: Hit
  get_parent :: "nat \<Rightarrow> nat option"
  get_children :: "nat \<Rightarrow> nat list"
  get_descendents :: "nat \<Rightarrow> nat list"
  get_next_tok :: "nat \<Rightarrow> nat option"

definition tok_at :: "analysis \<Rightarrow> nat \<Rightarrow> token" where
  "tok_at a i = toks (hit a) ! i"

text \<open>
  What the nested functions of \<^verbatim>\<open>script\<close> share through \<^verbatim>\<open>nonlocal\<close>: the analysis
  object, the language, the anchor \<open>T\<close>, the head, the leftmost word and the prefield.
\<close>

record env =
  an :: analysis
  lang :: string
  T :: nat
  head :: nat
  w1 :: nat
  prefield :: "nat list"

section \<open>Getters\<close>

definition get_head :: "analysis \<Rightarrow> nat \<Rightarrow> nat option" where
  "get_head a t =
     (if fullmatch rx_aux_cop (DEPREL (tok_at a t)) then get_parent a t else Some t)"

definition get_w1 :: "analysis \<Rightarrow> nat \<Rightarrow> nat" where
  "get_w1 a tok =
     (let l = get_descendents a tok;
          l = filter (\<lambda>x. UPOS (tok_at a x) \<noteq> ''PUNCT'') l
      in if l \<noteq> [] \<and> hd l < tok then hd l else tok)"

section \<open>Detection of special tokens\<close>

text \<open>
  \<^verbatim>\<open>could_be_prefield_clitic\<close> calls itself on the navigator's next token. Nothing in the
  script bounds that recursion, so the model is a partial function: \<open>None\<close> is a call
  that does not return. (Python's stack limit, which ends an endless recursion with a
  \<^verbatim>\<open>RecursionError\<close> and a very deep one too, is not modelled.)
\<close>

partial_function (option) could_be_prefield_clitic :: "env \<Rightarrow> nat \<Rightarrow> bool option" where
  "could_be_prefield_clitic e tok =
     (if tok \<notin> set (prefield e) then Some False
      else if get_children (an e) tok \<noteq> [] then Some False
      else if UPOS (tok_at (an e) tok) \<notin> set [''PRON'', ''ADV''] then Some False
      else (case get_next_tok (an e) tok of
              None \<Rightarrow> Some True
            | Some next_tok \<Rightarrow>
                if next_tok \<in> set (prefield e) then
                  do { b \<leftarrow> could_be_prefield_clitic e next_tok;
                       if \<not> b then Some False else Some True }
                else Some True))"

declare could_be_prefield_clitic.simps [code]

definition is_dephead :: "env \<Rightarrow> nat \<Rightarrow> bool" where
  "is_dephead e tok =
     (if tok = head e \<and> \<not> T e = head e \<and> DEPREL (tok_at (an e) (T e)) = ''cop'' then True
      else if UPOS (tok_at (an e) tok) \<noteq> ''PUNCT'' then get_parent (an e) tok = Some (head e)
      else False)"

definition could_be_c_head :: "env \<Rightarrow> nat \<Rightarrow> bool" where
  "could_be_c_head e tok =
     (if tok \<notin> set (prefield e) then False
      else if \<not> is_dephead e tok then False
      else if UPOS (tok_at (an e) tok) \<notin> set [''SCONJ'', ''PRON'', ''ADV''] then False
      else True)"

definition is_prefield_conjunction :: "env \<Rightarrow> nat \<Rightarrow> bool" where
  "is_prefield_conjunction e tok =
     (if tok \<notin> set (prefield e) then False
      else if \<not> is_dephead e tok then False
      else if get_children (an e) tok \<noteq> [] then False
      else if \<not> UPOS (tok_at (an e) tok) = ''CCONJ'' then False
      else True)"

definition is_prefield_interjection :: "env \<Rightarrow> nat \<Rightarrow> bool" where
  "is_prefield_interjection e tok =
     (if tok \<notin> set (prefield e) then False
      else if \<not> UPOS (tok_at (an e) tok) = ''INTJ'' then False
      else True)"

definition is_parenthetical :: "env \<Rightarrow> nat \<Rightarrow> bool" where
  "is_parenthetical e tok =
     (if \<not> is_dephead e tok then False
      else if \<not> DEPREL (tok_at (an e) tok) = ''parataxis'' then False
      else if tok = head e then False
      else True)"

definition is_vocative :: "env \<Rightarrow> nat \<Rightarrow> bool" where
  "is_vocative e tok =
     (if \<not> is_dephead e tok then False
      else if \<not> DEPREL (tok_at (an e) tok) = ''vocative'' then False
      else True)"

text \<open>
  \<^verbatim>\<open>_is_c_element_fr\<close> and \<^verbatim>\<open>is_c_element\<close> call each other: a token that fails
  \<^verbatim>\<open>could_be_c_head\<close> asks \<^verbatim>\<open>is_c_element\<close> of its parent, which dispatches on the
  language again. \<open>is_c_element_fr\<close> holds that dispatch in its recursive call, and
  \<open>is_c_element\<close> is defined from it; \<open>is_c_element_fr_parent\<close> below shows the call is
  \<open>is_c_element\<close> of the parent. The recursion follows the navigator's parents and is
  partial for the same reason as above. A token that passes the gate has one of the three
  parts of speech, so the source's fall off the end of the function (Python's \<^verbatim>\<open>None\<close>,
  which the callers read as false) is the last \<open>Some False\<close>.
\<close>

partial_function (option) is_c_element_fr :: "env \<Rightarrow> nat \<Rightarrow> bool option" where
  "is_c_element_fr e tok =
     (if \<not> could_be_c_head e tok then
        (case get_parent (an e) tok of
           None \<Rightarrow> Some False
         | Some parent \<Rightarrow>
             do { c \<leftarrow> (if lang e = ''french'' then is_c_element_fr e parent else Some False);
                  Some (if c then True else False) })
      else if UPOS (tok_at (an e) tok) = ''SCONJ'' then Some True
      else if UPOS (tok_at (an e) tok) = ''PRON'' then
        (if rmatch rx_qu (lower (form (tok_at (an e) tok))) then Some True
         else if fullmatch rx_cui (lower (form (tok_at (an e) tok))) then Some True
         else if rmatch rx_dont (lower (form (tok_at (an e) tok))) then Some True
         else if fullmatch rx_ou (lower (form (tok_at (an e) tok))) then Some True
         else Some False)
      else if UPOS (tok_at (an e) tok) = ''ADV'' then
        (if rmatch rx_comment (lower (form (tok_at (an e) tok))) then Some True
         else if rmatch rx_combien (lower (form (tok_at (an e) tok))) then Some True
         else Some False)
      else Some False)"

declare is_c_element_fr.simps [code]

definition is_c_element :: "env \<Rightarrow> nat \<Rightarrow> bool option" where
  "is_c_element e tok = (if lang e = ''french'' then is_c_element_fr e tok else Some False)"

definition is_prefield_clitic_fr :: "env \<Rightarrow> nat \<Rightarrow> bool option" where
  "is_prefield_clitic_fr e tok =
     do { b \<leftarrow> could_be_prefield_clitic e tok;
          if \<not> b then Some False
          else if UPOS (tok_at (an e) tok) = ''PRON'' then
            (if fullmatch rx_clitic_pron (lower (form (tok_at (an e) tok))) then Some True
             else if \<not> rmatch rx_nsubj (DEPREL (tok_at (an e) tok)) \<and>
                     fullmatch rx_nous_vous (lower (form (tok_at (an e) tok))) then Some True
             else Some False)
          else if UPOS (tok_at (an e) tok) = ''ADV'' then
            (if fullmatch rx_clitic_adv (lower (form (tok_at (an e) tok))) then Some True
             else Some False)
          else Some False }"

definition is_prefield_clitic :: "env \<Rightarrow> nat \<Rightarrow> bool option" where
  "is_prefield_clitic e tok =
     (if lang e = ''french'' then is_prefield_clitic_fr e tok else Some False)"

section \<open>Tagging\<close>

text \<open>The inner loop of \<^verbatim>\<open>_tag_p_form_fr\<close>: the lemma of the first pattern that matches.\<close>

fun adp_lemma :: "(string \<times> rx) list \<Rightarrow> string \<Rightarrow> string option" where
  "adp_lemma [] s = None"
| "adp_lemma ((tag, regex) # rest) s = (if fullmatch regex s then Some tag else adp_lemma rest s)"

fun tag_p_form_fr :: "analysis \<Rightarrow> nat list \<Rightarrow> string" where
  "tag_p_form_fr a [] = []"
| "tag_p_form_fr a (tok # rest) =
     (if UPOS (tok_at a tok) \<noteq> ''ADP'' \<or> DEPREL (tok_at a tok) \<noteq> ''case''
      then tag_p_form_fr a rest
      else (case adp_lemma ADPS_FR (lower (form (tok_at a tok))) of
              Some tag \<Rightarrow> tag
            | None \<Rightarrow> ''P''))"

text \<open>The cascade of \<^verbatim>\<open>_tag_form_fr\<close>: the tag before the adposition is looked at.\<close>

definition base_tag_fr :: "analysis \<Rightarrow> nat \<Rightarrow> string" where
  "base_tag_fr a tok =
     (if UPOS (tok_at a tok) = ''ADV'' \<and> fullmatch rx_si (lower (form (tok_at a tok)))
        then ''ADVP:si''
      else if UPOS (tok_at a tok) = ''PRON'' \<and> fullmatch rx_prs_nom (lower (form (tok_at a tok)))
        then ''NP:PRON:Prs:Nom''
      else if UPOS (tok_at a tok) = ''PRON'' \<and> fullmatch rx_dem_ce (lower (form (tok_at a tok)))
        then ''NP:PRON:Dem:ce''
      else if UPOS (tok_at a tok) = ''PRON'' \<and> fullmatch rx_dem (lower (form (tok_at a tok)))
        then ''NP:PRON:Dem''
      else if UPOS (tok_at a tok) = ''PRON'' then ''NP:PRON''
      else if UPOS (tok_at a tok) \<in> set [''NOUN'', ''PROPN''] then ''NP''
      else if UPOS (tok_at a tok) = ''VERB'' \<and> contains (FEATS (tok_at a tok)) ''VerbForm=Fin''
        then ''TP''
      else if UPOS (tok_at a tok) = ''VERB'' then ''VP''
      else if UPOS (tok_at a tok) = ''ADJ'' then ''AP''
      else if UPOS (tok_at a tok) = ''ADV'' then ''ADVP''
      else ''XX'')"

definition tag_form_fr :: "analysis \<Rightarrow> nat \<Rightarrow> string" where
  "tag_form_fr a tok =
     (let children = get_children a tok;
          P = tag_p_form_fr a children;
          tag = base_tag_fr a tok
      in if P = ''P'' then ''PP['' @ tag @ '']''
         else if P \<noteq> [] then ''PP:'' @ P @ ''['' @ tag @ '']''
         else tag)"

definition tag_form :: "env \<Rightarrow> nat \<Rightarrow> string" where
  "tag_form e tok = (if lang e = ''french'' then tag_form_fr (an e) tok else [])"

section \<open>The script: locators\<close>

text \<open>
  The two ways the first lines of \<^verbatim>\<open>script\<close> can fail. \<^verbatim>\<open>hit.kws[0]\<close> raises
  \<^verbatim>\<open>IndexError\<close> on a clause with no keyword. When the anchor is an auxiliary or a copula
  and the navigator gives it no parent, \<^verbatim>\<open>get_head\<close> returns \<^verbatim>\<open>None\<close> and the script
  hands it to \<^verbatim>\<open>get_ix_from_tok\<close> and \<^verbatim>\<open>get_descendents\<close>, which take a token: the
  call is taken to fail there, as \<open>NavigatorError\<close>.
\<close>

datatype error = IndexError | NavigatorError

definition locate :: "analysis \<Rightarrow> string \<Rightarrow> error + env" where
  "locate a l =
     (case kws (hit a) of
        [] \<Rightarrow> Inl IndexError
      | t # _ \<Rightarrow>
          (case get_head a t of
             None \<Rightarrow> Inl NavigatorError
           | Some h \<Rightarrow>
               let w = get_w1 a h
               in Inr \<lparr>an = a, lang = l, T = t, head = h, w1 = w,
                       prefield = slice [0..<length (toks (hit a))] w t\<rparr>))"

text \<open>
  A list comprehension \<^verbatim>\<open>[f(x) for x in prefield]\<close> over a function that may not return:
  it returns when every call does.
\<close>

fun collect :: "(nat \<Rightarrow> bool option) \<Rightarrow> nat list \<Rightarrow> bool list option" where
  "collect f [] = Some []"
| "collect f (x # xs) = do { b \<leftarrow> f x; bs \<leftarrow> collect f xs; Some (b # bs) }"

text \<open>
  The first loop: \<open>i\<close> is the counter of \<^verbatim>\<open>enumerate\<close>, \<open>l\<close> the list built so far. The
  rows are the tuples of \<^verbatim>\<open>zip\<close>.
\<close>

fun dephead_loop ::
  "env \<Rightarrow> nat \<Rightarrow> (bool \<times> bool \<times> bool \<times> bool \<times> nat) list \<Rightarrow> bool list \<Rightarrow> bool list" where
  "dephead_loop e i [] l = l"
| "dephead_loop e i ((is_interjection, is_clitic, is_conjunction, is_c, tok) # rest) l =
     dephead_loop e (Suc i) rest
       (if is_conjunction \<or> is_c then replicate (i + 1) False
        else if is_clitic \<or> is_interjection then l @ [False]
        else l @ [is_dephead e tok])"

text \<open>The second loop.\<close>

fun countable_loop :: "(bool \<times> bool \<times> bool \<times> nat) list \<Rightarrow> bool list \<Rightarrow> bool list" where
  "countable_loop [] l = l"
| "countable_loop ((parenthetical, vocative, dephead, tok) # rest) l =
     countable_loop rest
       (if dephead \<and> \<not> parenthetical \<and> \<not> vocative then l @ [True] else l @ [False])"

record status =
  prefield_interjection_status :: "bool list"
  prefield_clitic_status :: "bool list"
  prefield_conjunction_status :: "bool list"
  prefield_c_status :: "bool list"
  prefield_dephead_status :: "bool list"
  prefield_parenthetical_status :: "bool list"
  prefield_vocative_status :: "bool list"
  prefield_countable_head_status :: "bool list"

definition classify :: "env \<Rightarrow> status option" where
  "classify e =
     do { let interjection = map (is_prefield_interjection e) (prefield e);
          clitic \<leftarrow> collect (is_prefield_clitic e) (prefield e);
          let conjunction = map (is_prefield_conjunction e) (prefield e);
          c \<leftarrow> collect (is_c_element e) (prefield e);
          let dephead =
            dephead_loop e 0
              (zip interjection (zip clitic (zip conjunction (zip c (prefield e))))) [];
          let parenthetical = map (is_parenthetical e) (prefield e);
          let vocative = map (is_vocative e) (prefield e);
          let countable =
            countable_loop (zip parenthetical (zip vocative (zip dephead (prefield e)))) [];
          Some \<lparr>prefield_interjection_status = interjection,
                prefield_clitic_status = clitic,
                prefield_conjunction_status = conjunction,
                prefield_c_status = c,
                prefield_dephead_status = dephead,
                prefield_parenthetical_status = parenthetical,
                prefield_vocative_status = vocative,
                prefield_countable_head_status = countable\<rparr> }"

section \<open>The script: taggers\<close>

definition rank_key :: "nat \<Rightarrow> string" where
  "rank_key i = ''T-'' @ str_nat i @ ''_form''"

text \<open>\<^verbatim>\<open>for i in range(1, 5): hit.tags['T-' + str(i) + '_form'] = ''\<close>\<close>

definition init_ranks :: "tagstore \<Rightarrow> tagstore" where
  "init_ranks tg = foldl (\<lambda>tg i. tg(rank_key i \<mapsto> Str [])) tg [1..<5]"

text \<open>
  The loop over the reversed list of pairs; \<open>i\<close> is its counter, which goes on counting
  after the fourth head.
\<close>

fun rank_loop :: "env \<Rightarrow> nat \<Rightarrow> (bool \<times> nat) list \<Rightarrow> tagstore \<Rightarrow> tagstore" where
  "rank_loop e i [] tg = tg"
| "rank_loop e i ((head_status, tok) # rest) tg =
     (if \<not> head_status then rank_loop e i rest tg
      else if i + 1 > 4 then rank_loop e (i + 1) rest tg
      else rank_loop e (i + 1) rest (tg(rank_key (i + 1) \<mapsto> Str (tag_form e tok))))"

text \<open>The diagnostic loops: the forms of the tokens whose flag is set.\<close>

fun forms_where :: "analysis \<Rightarrow> (bool \<times> nat) list \<Rightarrow> string list" where
  "forms_where a [] = []"
| "forms_where a ((status, tok) # rest) =
     (if status then form (tok_at a tok) # forms_where a rest else forms_where a rest)"

definition write_tags :: "env \<Rightarrow> status \<Rightarrow> tagstore \<Rightarrow> tagstore" where
  "write_tags e st tg0 =
     (let tg = init_ranks tg0;
          tg = rank_loop e 0 (rev (zip (prefield_countable_head_status st) (prefield e))) tg;
          tg = tg(''prefield_clitics'' \<mapsto>
                 Str (join '' '' (forms_where (an e) (zip (prefield_clitic_status st) (prefield e)))));
          tg = tg(''prefield_conjunctions'' \<mapsto>
                 Str (join '' '' (forms_where (an e) (zip (prefield_conjunction_status st) (prefield e)))));
          tg = tg(''prefield_cs'' \<mapsto>
                 Str (join '' '' (forms_where (an e) (zip (prefield_c_status st) (prefield e)))));
          tg = tg(''prefield_countable_heads'' \<mapsto>
                 Str (join '' '' (forms_where (an e) (zip (prefield_countable_head_status st) (prefield e)))));
          tg = tg(''T'' \<mapsto> Str (form (tok_at (an e) (T e))));
          tg = tg(''head'' \<mapsto> Str (form (tok_at (an e) (head e))));
          tg = tg(''w1'' \<mapsto> Str (form (tok_at (an e) (w1 e))));
          tg = tg(''prefield'' \<mapsto> StrList (map (\<lambda>x. form (tok_at (an e) x)) (prefield e)))
      in tg)"

text \<open>
  The whole call. The result is \<open>None\<close> when the call does not return, \<open>Some (Inl err)\<close>
  when it raises, and \<open>Some (Inr tg)\<close> when it returns, \<open>tg\<close> being \<^verbatim>\<open>hit.tags\<close> as the
  call leaves it. Both failures come before the first write to \<^verbatim>\<open>hit.tags\<close>.
\<close>

definition script :: "analysis \<Rightarrow> string \<Rightarrow> (error + tagstore) option" where
  "script a l =
     (case locate a l of
        Inl err \<Rightarrow> Some (Inl err)
      | Inr e \<Rightarrow> do { st \<leftarrow> classify e; Some (Inr (write_tags e st (tags (hit a)))) })"

section \<open>Concrete clauses\<close>

text \<open>
  A navigator over a list of parent positions, for the concrete clauses the theorems are
  tried on: the children and the descendants of a token are listed in clause order, the
  descendants being the tokens whose chain of parents (followed for at most as many steps
  as the clause has tokens) passes through it, and the next token is the next position.
  The list of parents may hold a cycle.
\<close>

fun ancestors :: "nat option list \<Rightarrow> nat \<Rightarrow> nat \<Rightarrow> nat list" where
  "ancestors ps 0 j = []"
| "ancestors ps (Suc f) j =
     (if j < length ps
      then (case ps ! j of None \<Rightarrow> [] | Some p \<Rightarrow> p # ancestors ps f p)
      else [])"

definition tree_an :: "token list \<Rightarrow> nat list \<Rightarrow> nat option list \<Rightarrow> tagstore \<Rightarrow> analysis" where
  "tree_an ts ks ps tg =
     \<lparr>hit = \<lparr>toks = ts, kws = ks, tags = tg\<rparr>,
      get_parent = (\<lambda>i. if i < length ps then ps ! i else None),
      get_children = (\<lambda>i. filter (\<lambda>j. ps ! j = Some i) [0..<length ps]),
      get_descendents =
        (\<lambda>i. filter (\<lambda>j. i \<in> set (ancestors ps (length ps) j)) [0..<length ps]),
      get_next_tok = (\<lambda>i. if Suc i < length ts then Some (Suc i) else None)\<rparr>"

definition tk :: "string \<Rightarrow> string \<Rightarrow> string \<Rightarrow> token" where
  "tk f u d = \<lparr>form = f, UPOS = u, DEPREL = d, FEATS = ''_''\<rparr>"

text \<open>
  \<^verbatim>\<open>Hier , Jean parle\<close>: the end-to-end scenario of the specification. The store holds
  one entry of the caller's before the call.
\<close>

definition cl_hier :: analysis where
  "cl_hier =
     tree_an [tk ''Hier'' ''ADV'' ''advmod'', tk '','' ''PUNCT'' ''punct'',
              tk ''Jean'' ''PROPN'' ''nsubj'', tk ''parle'' ''VERB'' ''root'']
       [3] [Some 3, Some 3, Some 3, None] [''sent_id'' \<mapsto> Str ''s1'']"

text \<open>\<^verbatim>\<open>Et que Jean parle\<close>: a conjunction and a complementizer before the subject.\<close>

definition cl_que :: analysis where
  "cl_que =
     tree_an [tk ''Et'' ''CCONJ'' ''cc'', tk ''que'' ''SCONJ'' ''mark'',
              tk ''Jean'' ''PROPN'' ''nsubj'', tk ''parle'' ''VERB'' ''root'']
       [3] [Some 3, Some 3, Some 3, None] Map.empty"

text \<open>\<^verbatim>\<open>Jean le lui donne\<close>: two clitics in a row before the verb.\<close>

definition cl_donne :: analysis where
  "cl_donne =
     tree_an [tk ''Jean'' ''PROPN'' ''nsubj'', tk ''le'' ''PRON'' ''obj'',
              tk ''lui'' ''PRON'' ''iobj'', tk ''donne'' ''VERB'' ''root'']
       [3] [Some 3, Some 3, Some 3, None] Map.empty"

text \<open>\<^verbatim>\<open>Le Jean parle\<close>, the first word tagged as a pronoun: a clitic-looking token before a noun.\<close>

definition cl_le :: analysis where
  "cl_le =
     tree_an [tk ''Le'' ''PRON'' ''obj'', tk ''Jean'' ''PROPN'' ''nsubj'',
              tk ''parle'' ''VERB'' ''root'']
       [2] [Some 2, Some 2, None] Map.empty"

text \<open>\<^verbatim>\<open>Vous parlez\<close>\<close>

definition cl_vous :: analysis where
  "cl_vous =
     tree_an [tk ''Vous'' ''PRON'' ''nsubj'', tk ''parlez'' ''VERB'' ''root'']
       [1] [Some 1, None] Map.empty"

text \<open>\<^verbatim>\<open>Nous parlons\<close>\<close>

definition cl_nous :: analysis where
  "cl_nous =
     tree_an [tk ''Nous'' ''PRON'' ''nsubj'', tk ''parlons'' ''VERB'' ''root'']
       [1] [Some 1, None] Map.empty"

text \<open>
  \<^verbatim>\<open>... est\<close>: a copula attached to a punctuation token, which is then the head of the
  clause and stands in the prefield.
\<close>

definition cl_cop :: analysis where
  "cl_cop =
     tree_an [tk ''...'' ''PUNCT'' ''root'', tk ''est'' ''AUX'' ''cop'']
       [1] [None, Some 0] Map.empty"

text \<open>\<^verbatim>\<open>En la ville entre\<close>: a noun with two adpositions, the first of which decides.\<close>

definition cl_ville :: analysis where
  "cl_ville =
     tree_an [tk ''En'' ''ADP'' ''case'', tk ''la'' ''DET'' ''det'', tk ''sur'' ''ADP'' ''case'',
              tk ''ville'' ''NOUN'' ''obl'', tk ''entre'' ''VERB'' ''root'']
       [4] [Some 3, Some 3, Some 3, Some 4, None] Map.empty"

text \<open>
  \<^verbatim>\<open>Jean parle a b\<close>, the last two tokens being each other's parent: the parents form a
  cycle, outside the prefield.
\<close>

definition cl_cycle :: analysis where
  "cl_cycle =
     tree_an [tk ''Jean'' ''PROPN'' ''nsubj'', tk ''parle'' ''VERB'' ''root'',
              tk ''a'' ''NOUN'' ''obj'', tk ''b'' ''NOUN'' ''obj'']
       [1] [Some 1, None, Some 3, Some 2] Map.empty"

text \<open>
  \<^verbatim>\<open>Jean a b parle\<close>, the two tokens in the middle being each other's parent: the cycle
  lies in the prefield, where complementizer inheritance follows it.
\<close>

definition cl_loop :: analysis where
  "cl_loop =
     tree_an [tk ''Jean'' ''PROPN'' ''nsubj'', tk ''a'' ''NOUN'' ''obj'',
              tk ''b'' ''NOUN'' ''obj'', tk ''parle'' ''VERB'' ''root'']
       [3] [Some 3, Some 2, Some 1, None] Map.empty"

text \<open>The same words with no keyword: the anchor is missing.\<close>

definition cl_no_anchor :: analysis where
  "cl_no_anchor =
     tree_an [tk ''Jean'' ''PROPN'' ''nsubj'', tk ''parle'' ''VERB'' ''root'']
       [] [Some 1, None] Map.empty"

text \<open>Six nouns before the verb, each a dependent of it: more heads than ranks.\<close>

definition cl_six :: analysis where
  "cl_six =
     tree_an [tk ''a'' ''NOUN'' ''obl'', tk ''b'' ''PRON'' ''obl'', tk ''c'' ''ADJ'' ''obl'',
              tk ''d'' ''ADV'' ''obl'', tk ''e'' ''NOUN'' ''obl'', tk ''f'' ''NUM'' ''obl'',
              tk ''parle'' ''VERB'' ''root'']
       [6] [Some 6, Some 6, Some 6, Some 6, Some 6, Some 6, None] Map.empty"

text \<open>What \<open>locate\<close> finds in these clauses.\<close>

definition env_of :: "analysis \<Rightarrow> string \<Rightarrow> nat \<Rightarrow> nat \<Rightarrow> nat \<Rightarrow> env" where
  "env_of a l t h w =
     \<lparr>an = a, lang = l, T = t, head = h, w1 = w, prefield = [w..<t]\<rparr>"

text \<open>
  How a result is looked at: the entries of the store under the listed keys, when the call
  returned.
\<close>

definition entries :: "(error + tagstore) option \<Rightarrow> string list \<Rightarrow> (error + tagval option list) option" where
  "entries r ks = map_option (map_sum id (\<lambda>tg. map tg ks)) r"

definition script_keys :: "string list" where
  "script_keys =
     [''T-1_form'', ''T-2_form'', ''T-3_form'', ''T-4_form'', ''prefield_clitics'',
      ''prefield_conjunctions'', ''prefield_cs'', ''prefield_countable_heads'',
      ''T'', ''head'', ''w1'', ''prefield'']"

text \<open>
  Two notions the properties are stated with. \<open>flagged\<close> lists the tokens of the rows
  whose flag is set, in the order of the rows. \<open>rank_trace\<close> is the loop of \<open>rank_loop\<close>
  again, with the same counter and the same tests, recording the rank and the token of
  each write to the store instead of writing the tag; \<open>rank_loop_trace\<close> below shows that
  \<open>rank_loop\<close> writes exactly the tags of the recorded tokens under the recorded ranks.
\<close>

definition flagged :: "(bool \<times> nat) list \<Rightarrow> nat list" where
  "flagged rows = map snd (filter fst rows)"

fun rank_trace :: "nat \<Rightarrow> (bool \<times> nat) list \<Rightarrow> (nat \<times> nat) list" where
  "rank_trace i [] = []"
| "rank_trace i ((head_status, tok) # rest) =
     (if \<not> head_status then rank_trace i rest
      else if i + 1 > 4 then rank_trace (i + 1) rest
      else (i + 1, tok) # rank_trace (i + 1) rest)"

text \<open>
  The parent relation of a navigator, as a set of pairs (parent, child): the precondition
  of the termination property speaks of it.
\<close>

definition parent_rel :: "analysis \<Rightarrow> (nat \<times> nat) set" where
  "parent_rel a = {(p, t). get_parent a t = Some p}"

text \<open>
  The chain of parents of a token ends: following the navigator's parents from the token
  reaches a token with no parent. Cycles among other tokens do not matter to it.
\<close>

inductive chain_ends :: "analysis \<Rightarrow> nat \<Rightarrow> bool" for a :: analysis where
  chain_root: "get_parent a t = None \<Longrightarrow> chain_ends a t"
| chain_step: "get_parent a t = Some p \<Longrightarrow> chain_ends a p \<Longrightarrow> chain_ends a t"

section \<open>Properties\<close>

subsection \<open>The matcher decides the language of a pattern\<close>

lemma nullable_lang: "nullable r \<longleftrightarrow> [] \<in> rx_lang r"
  by (induction r) (auto intro: star_nil)

lemma star_lang_Cons_D:
  "w \<in> star_lang L \<Longrightarrow> w = c # s \<Longrightarrow> \<exists>u v. s = u @ v \<and> c # u \<in> L \<and> v \<in> star_lang L"
proof (induction arbitrary: s rule: star_lang.induct)
  case star_nil
  then show ?case by simp
next
  case (star_app u v)
  show ?case
  proof (cases u)
    case Nil
    with star_app show ?thesis by simp
  next
    case (Cons d u')
    with star_app.prems have "d = c" and "s = u' @ v" by simp_all
    with star_app.hyps Cons show ?thesis by blast
  qed
qed

lemma star_lang_Cons:
  "c # s \<in> star_lang L \<longleftrightarrow> (\<exists>u v. s = u @ v \<and> c # u \<in> L \<and> v \<in> star_lang L)"
proof
  assume "c # s \<in> star_lang L"
  then show "\<exists>u v. s = u @ v \<and> c # u \<in> L \<and> v \<in> star_lang L"
    by (rule star_lang_Cons_D) (rule refl)
next
  assume "\<exists>u v. s = u @ v \<and> c # u \<in> L \<and> v \<in> star_lang L"
  then obtain u v where "s = u @ v" and "c # u \<in> L" and "v \<in> star_lang L" by blast
  then have "(c # u) @ v \<in> star_lang L" by (intro star_app)
  with \<open>s = u @ v\<close> show "c # s \<in> star_lang L" by simp
qed

lemma deriv_lang: "s \<in> rx_lang (deriv c r) \<longleftrightarrow> c # s \<in> rx_lang r"
proof (induction r arbitrary: s)
  case (Cat a b)
  have "c # s \<in> rx_lang (Cat a b) \<longleftrightarrow>
      ([] \<in> rx_lang a \<and> c # s \<in> rx_lang b) \<or>
      (\<exists>u v. s = u @ v \<and> c # u \<in> rx_lang a \<and> v \<in> rx_lang b)"
    by (auto simp: Cons_eq_append_conv)
  with Cat show ?case by (auto simp: nullable_lang)
next
  case (Star a)
  then show ?case by (auto simp: star_lang_Cons)
qed auto

lemma fullmatch_lang: "fullmatch r s \<longleftrightarrow> s \<in> rx_lang r"
  by (induction s arbitrary: r) (simp_all add: nullable_lang deriv_lang)

lemma rmatch_lang: "rmatch r s \<longleftrightarrow> (\<exists>u v. s = u @ v \<and> u \<in> rx_lang r)"
proof (induction s arbitrary: r)
  case Nil
  then show ?case by (simp add: nullable_lang)
next
  case (Cons c s)
  have "(\<exists>u v. c # s = u @ v \<and> u \<in> rx_lang r) \<longleftrightarrow>
      [] \<in> rx_lang r \<or> (\<exists>u v. s = u @ v \<and> c # u \<in> rx_lang r)"
    by (auto simp: Cons_eq_append_conv)
  with Cons show ?case by (simp add: nullable_lang deriv_lang)
qed

subsection \<open>What the locators find\<close>

lemma slice_upt: "t \<le> n \<Longrightarrow> slice [0..<n] w t = [w..<t]"
proof (cases "w \<le> t")
  case True
  assume "t \<le> n"
  with True have "take (t - w) [w..<n] = [w..<w + (t - w)]"
    by (intro take_upt) simp
  with True show ?thesis by (simp add: slice_def)
next
  case False
  then show ?thesis by (simp add: slice_def)
qed

lemma locate_eq:
  assumes "kws (hit a) = t # ks" and "get_head a t = Some h" and "get_w1 a h = w"
    and "t \<le> length (toks (hit a))"
  shows "locate a l = Inr (env_of a l t h w)"
  using assms by (simp add: locate_def env_of_def slice_upt)

lemma cl_hier_located:
  "kws (hit cl_hier) = [3]" "get_head cl_hier 3 = Some 3" "get_w1 cl_hier 3 = 0"
  "3 \<le> length (toks (hit cl_hier))"
  by code_simp+

lemma locate_cl_hier: "locate cl_hier l = Inr (env_of cl_hier l 3 3 0)"
  by (rule locate_eq [OF cl_hier_located])

lemma cl_que_located:
  "kws (hit cl_que) = [3]" "get_head cl_que 3 = Some 3" "get_w1 cl_que 3 = 0"
  "3 \<le> length (toks (hit cl_que))"
  by code_simp+

lemma locate_cl_que: "locate cl_que l = Inr (env_of cl_que l 3 3 0)"
  by (rule locate_eq [OF cl_que_located])

lemma cl_donne_located:
  "kws (hit cl_donne) = [3]" "get_head cl_donne 3 = Some 3" "get_w1 cl_donne 3 = 0"
  "3 \<le> length (toks (hit cl_donne))"
  by code_simp+

lemma locate_cl_donne: "locate cl_donne l = Inr (env_of cl_donne l 3 3 0)"
  by (rule locate_eq [OF cl_donne_located])

lemma cl_le_located:
  "kws (hit cl_le) = [2]" "get_head cl_le 2 = Some 2" "get_w1 cl_le 2 = 0"
  "2 \<le> length (toks (hit cl_le))"
  by code_simp+

lemma locate_cl_le: "locate cl_le l = Inr (env_of cl_le l 2 2 0)"
  by (rule locate_eq [OF cl_le_located])

lemma cl_cop_located:
  "kws (hit cl_cop) = [1]" "get_head cl_cop 1 = Some 0" "get_w1 cl_cop 0 = 0"
  "1 \<le> length (toks (hit cl_cop))"
  by code_simp+

lemma locate_cl_cop: "locate cl_cop l = Inr (env_of cl_cop l 1 0 0)"
  by (rule locate_eq [OF cl_cop_located])

lemma cl_six_located:
  "kws (hit cl_six) = [6]" "get_head cl_six 6 = Some 6" "get_w1 cl_six 6 = 0"
  "6 \<le> length (toks (hit cl_six))"
  by code_simp+

lemma locate_cl_six: "locate cl_six l = Inr (env_of cl_six l 6 6 0)"
  by (rule locate_eq [OF cl_six_located])

subsection \<open>The clitic chain\<close>

lemma could_be_prefield_clitic_true:
  "could_be_prefield_clitic e tok = Some True \<longleftrightarrow>
     tok \<in> set (prefield e) \<and> get_children (an e) tok = [] \<and>
     UPOS (tok_at (an e) tok) \<in> {''PRON'', ''ADV''} \<and>
     (\<forall>nt. get_next_tok (an e) tok = Some nt \<longrightarrow> nt \<in> set (prefield e) \<longrightarrow>
        could_be_prefield_clitic e nt = Some True)"
  by (subst could_be_prefield_clitic.simps) (auto split: option.splits Option.bind_splits)

lemma could_be_prefield_clitic_broken:
  assumes "tok \<in> set (prefield e)" and "get_children (an e) tok = []"
    and "UPOS (tok_at (an e) tok) \<in> {''PRON'', ''ADV''}"
    and "get_next_tok (an e) tok = Some nt" and "nt \<in> set (prefield e)"
    and "could_be_prefield_clitic e nt = Some False"
  shows "could_be_prefield_clitic e tok = Some False"
  using assms by (subst could_be_prefield_clitic.simps) auto

text \<open>
  C3. A token is a possible clitic exactly when it stands in the prefield, has no children,
  is a pronoun or an adverb, and the next token, when it stands in the prefield too, is a
  possible clitic itself. In particular a token with the first three properties whose next
  token stands in the prefield and is not a possible clitic is not one either.
\<close>

theorem could_be_prefield_clitic_chain:
  "(could_be_prefield_clitic e tok = Some True \<longleftrightarrow>
      tok \<in> set (prefield e) \<and> get_children (an e) tok = [] \<and>
      UPOS (tok_at (an e) tok) \<in> {''PRON'', ''ADV''} \<and>
      (\<forall>nt. get_next_tok (an e) tok = Some nt \<longrightarrow> nt \<in> set (prefield e) \<longrightarrow>
         could_be_prefield_clitic e nt = Some True)) \<and>
   (tok \<in> set (prefield e) \<and> get_children (an e) tok = [] \<and>
      UPOS (tok_at (an e) tok) \<in> {''PRON'', ''ADV''} \<longrightarrow>
      (\<forall>nt. get_next_tok (an e) tok = Some nt \<and> nt \<in> set (prefield e) \<and>
         could_be_prefield_clitic e nt = Some False \<longrightarrow>
         could_be_prefield_clitic e tok = Some False))"
proof (intro conjI impI allI)
  show "could_be_prefield_clitic e tok = Some True \<longleftrightarrow>
      tok \<in> set (prefield e) \<and> get_children (an e) tok = [] \<and>
      UPOS (tok_at (an e) tok) \<in> {''PRON'', ''ADV''} \<and>
      (\<forall>nt. get_next_tok (an e) tok = Some nt \<longrightarrow> nt \<in> set (prefield e) \<longrightarrow>
         could_be_prefield_clitic e nt = Some True)"
    by (rule could_be_prefield_clitic_true)
next
  fix nt
  assume "tok \<in> set (prefield e) \<and> get_children (an e) tok = [] \<and>
      UPOS (tok_at (an e) tok) \<in> {''PRON'', ''ADV''}"
    and "get_next_tok (an e) tok = Some nt \<and> nt \<in> set (prefield e) \<and>
      could_be_prefield_clitic e nt = Some False"
  then show "could_be_prefield_clitic e tok = Some False"
    by (intro could_be_prefield_clitic_broken [of tok e nt]) simp_all
qed

lemma cl_donne_le:
  "Suc 0 \<in> set (prefield (env_of cl_donne ''french'' 3 3 0))"
  "get_children (an (env_of cl_donne ''french'' 3 3 0)) (Suc 0) = []"
  "UPOS (tok_at (an (env_of cl_donne ''french'' 3 3 0)) (Suc 0)) = ''PRON''"
  "get_next_tok (an (env_of cl_donne ''french'' 3 3 0)) (Suc 0) = Some 2"
  "could_be_prefield_clitic (env_of cl_donne ''french'' 3 3 0) 2 = Some True"
  by code_simp+

lemma cl_le_le:
  "0 \<in> set (prefield (env_of cl_le ''french'' 2 2 0))"
  "get_children (an (env_of cl_le ''french'' 2 2 0)) 0 = []"
  "UPOS (tok_at (an (env_of cl_le ''french'' 2 2 0)) 0) = ''PRON''"
  "get_next_tok (an (env_of cl_le ''french'' 2 2 0)) 0 = Some (Suc 0)"
  "Suc 0 \<in> set (prefield (env_of cl_le ''french'' 2 2 0))"
  "could_be_prefield_clitic (env_of cl_le ''french'' 2 2 0) (Suc 0) = Some False"
  by code_simp+

theorem could_be_prefield_clitic_chain_witness:
  "could_be_prefield_clitic (env_of cl_donne ''french'' 3 3 0) (Suc 0) = Some True \<and>
   could_be_prefield_clitic (env_of cl_le ''french'' 2 2 0) 0 = Some False"
  using could_be_prefield_clitic_chain [of "env_of cl_donne ''french'' 3 3 0" "Suc 0"]
    could_be_prefield_clitic_chain [of "env_of cl_le ''french'' 2 2 0" 0]
  by (simp add: cl_donne_le cl_le_le)

subsection \<open>Punctuation and the head of a copular clause\<close>

text \<open>
  C6, as the code has it. For a punctuation token \<^verbatim>\<open>is_dephead\<close> is true exactly in the
  case the copula rule covers: the token is the head, the head is not the anchor and the
  anchor's relation is \<^verbatim>\<open>cop\<close>. That rule is tested before the part of speech is looked
  at; in every other case a punctuation token is no dephead.
\<close>

theorem is_dephead_punct:
  "UPOS (tok_at (an e) tok) = ''PUNCT'' \<Longrightarrow>
   is_dephead e tok =
     (tok = head e \<and> T e \<noteq> head e \<and> DEPREL (tok_at (an e) (T e)) = ''cop'')"
  by (simp add: is_dephead_def)

lemma cl_hier_comma: "UPOS (tok_at (an (env_of cl_hier ''french'' 3 3 0)) (Suc 0)) = ''PUNCT''"
  by code_simp

theorem is_dephead_punct_witness:
  "UPOS (tok_at (an (env_of cl_hier ''french'' 3 3 0)) (Suc 0)) = ''PUNCT'' \<and>
   \<not> is_dephead (env_of cl_hier ''french'' 3 3 0) (Suc 0)"
  using is_dephead_punct [OF cl_hier_comma] cl_hier_comma by (simp add: env_of_def)

text \<open>
  The claim as it stands fails on the clause \<open>cl_cop\<close>, whose head is a punctuation token
  with a copula attached: the token is a dephead, and the call counts it as a countable
  head and tags it.
\<close>

theorem is_dephead_punct_head:
  "UPOS (tok_at cl_cop 0) = ''PUNCT'' \<and> is_dephead (env_of cl_cop ''french'' 1 0 0) 0 \<and>
   entries (script cl_cop ''french'') [''prefield_countable_heads'', ''T-1_form''] =
     Some (Inr [Some (Str ''...''), Some (Str ''XX'')])"
  by code_simp

subsection \<open>The nominative personal pronouns\<close>

text \<open>
  The cascade of \<open>base_tag_fr\<close> gives a pronoun whose lower-cased form matches
  \<open>rx_prs_nom\<close> the nominative tag, whatever the demonstrative patterns say, and a token
  with no adposition among its children keeps its base tag.
\<close>

lemma base_tag_fr_prs_nom:
  "UPOS (tok_at a tok) = ''PRON'' \<Longrightarrow> fullmatch rx_prs_nom (lower (form (tok_at a tok))) \<Longrightarrow>
   base_tag_fr a tok = ''NP:PRON:Prs:Nom''"
  by (simp add: base_tag_fr_def)

lemma tag_form_fr_no_children: "get_children a tok = [] \<Longrightarrow> tag_form_fr a tok = base_tag_fr a tok"
  by (simp add: tag_form_fr_def)

text \<open>
  C5 (a defect of the code). \<^verbatim>\<open>vous\<close> belongs to the family the claim names, but the last
  alternative of the pattern holds a stray \<^verbatim>\<open>]\<close> and matches \<^verbatim>\<open>vou]s\<close> instead: the
  pronoun \<^verbatim>\<open>Vous\<close>, with no children, falls through to the generic pronoun tag, while
  \<^verbatim>\<open>Nous\<close> in the same place gets the nominative tag.
\<close>

theorem vous_not_nominative:
  "UPOS (tok_at cl_vous 0) = ''PRON'' \<and> lower (form (tok_at cl_vous 0)) = ''vous'' \<and>
   get_children cl_vous 0 = [] \<and>
   \<not> fullmatch rx_prs_nom ''vous'' \<and> fullmatch rx_prs_nom ''vou]s'' \<and>
   tag_form_fr cl_vous 0 = ''NP:PRON'' \<and>
   entries (script cl_vous ''french'') [''T-1_form''] = Some (Inr [Some (Str ''NP:PRON'')]) \<and>
   entries (script cl_nous ''french'') [''T-1_form''] = Some (Inr [Some (Str ''NP:PRON:Prs:Nom'')])"
  by code_simp

subsection \<open>The adposition wrap\<close>

lemma adp_lemma_find:
  "adp_lemma tbl s = map_option fst (find (\<lambda>(tag, regex). fullmatch regex s) tbl)"
  by (induction tbl) auto

lemma adp_lemma_in_table: "adp_lemma tbl s = Some tag \<Longrightarrow> tag \<in> fst ` set tbl"
  by (induction tbl) (auto split: if_splits)

lemma ADPS_FR_lemma: "adp_lemma ADPS_FR s = Some tag \<Longrightarrow> tag \<noteq> ''P'' \<and> tag \<noteq> []"
  by (drule adp_lemma_in_table) (auto simp: ADPS_FR_def)

lemma tag_p_form_fr_find:
  "tag_p_form_fr a cs =
     (case find (\<lambda>c. UPOS (tok_at a c) = ''ADP'' \<and> DEPREL (tok_at a c) = ''case'') cs of
        None \<Rightarrow> []
      | Some c \<Rightarrow>
          (case adp_lemma ADPS_FR (lower (form (tok_at a c))) of
             Some tag \<Rightarrow> tag
           | None \<Rightarrow> ''P''))"
  by (induction cs) auto

text \<open>
  C7. Only the first child that is an adposition with the relation \<^verbatim>\<open>case\<close> is looked
  at. When the lower-cased form of that child matches a pattern of \<open>ADPS_FR\<close>, the tag is
  the base tag wrapped as \<^verbatim>\<open>PP:lemma[base]\<close> with the lemma of the first pattern that
  matches; when it matches none, the tag is \<^verbatim>\<open>PP[base]\<close>; with no such child the base tag
  is returned as it is.
\<close>

theorem tag_form_fr_wrap:
  "tag_form_fr a tok =
     (case find (\<lambda>c. UPOS (tok_at a c) = ''ADP'' \<and> DEPREL (tok_at a c) = ''case'')
             (get_children a tok) of
        None \<Rightarrow> base_tag_fr a tok
      | Some c \<Rightarrow>
          (case map_option fst
                  (find (\<lambda>(tag, regex). fullmatch regex (lower (form (tok_at a c)))) ADPS_FR) of
             None \<Rightarrow> ''PP['' @ base_tag_fr a tok @ '']''
           | Some tag \<Rightarrow> ''PP:'' @ tag @ ''['' @ base_tag_fr a tok @ '']''))"
proof (cases "find (\<lambda>c. UPOS (tok_at a c) = ''ADP'' \<and> DEPREL (tok_at a c) = ''case'')
                (get_children a tok)")
  case None
  then show ?thesis by (simp add: tag_form_fr_def tag_p_form_fr_find)
next
  case (Some c)
  show ?thesis
  proof (cases "adp_lemma ADPS_FR (lower (form (tok_at a c)))")
    case None
    with Some show ?thesis
      by (simp add: tag_form_fr_def tag_p_form_fr_find adp_lemma_find [symmetric])
  next
    case (Some tag)
    with ADPS_FR_lemma [OF Some] \<open>find _ _ = Some c\<close> show ?thesis
      by (simp add: tag_form_fr_def tag_p_form_fr_find adp_lemma_find [symmetric])
  qed
qed

lemma cl_ville_adp:
  "find (\<lambda>c. UPOS (tok_at cl_ville c) = ''ADP'' \<and> DEPREL (tok_at cl_ville c) = ''case'')
     (get_children cl_ville 3) = Some 0"
  "map_option fst
     (find (\<lambda>(tag, regex). fullmatch regex (lower (form (tok_at cl_ville 0)))) ADPS_FR) = Some ''en''"
  "base_tag_fr cl_ville 3 = ''NP''"
  "get_children cl_ville 3 = [0, 1, 2]"
  "lower (form (tok_at cl_ville 0)) = ''en''"
  by code_simp+

theorem tag_form_fr_wrap_witness:
  "get_children cl_ville 3 = [0, 1, 2] \<and> lower (form (tok_at cl_ville 0)) = ''en'' \<and>
   tag_form_fr cl_ville 3 = ''PP:en[NP]''"
  using tag_form_fr_wrap [of cl_ville 3]
  unfolding cl_ville_adp(1) option.case cl_ville_adp(2) cl_ville_adp(3)
  by (simp add: cl_ville_adp(4) cl_ville_adp(5))

subsection \<open>The loops of the reducer\<close>

lemma collect_length: "collect f xs = Some bs \<Longrightarrow> length bs = length xs"
  by (induction xs arbitrary: bs) (auto split: Option.bind_splits)

lemma collect_nth: "collect f xs = Some bs \<Longrightarrow> i < length xs \<Longrightarrow> f (xs ! i) = Some (bs ! i)"
proof (induction xs arbitrary: bs i)
  case Nil
  then show ?case by simp
next
  case (Cons x xs)
  then show ?case by (cases i) (auto split: Option.bind_splits)
qed

lemma collect_total: "(\<And>x. x \<in> set xs \<Longrightarrow> f x = Some (g x)) \<Longrightarrow> collect f xs = Some (map g xs)"
  by (induction xs) auto

lemma dephead_loop_length:
  "length l = i \<Longrightarrow> length (dephead_loop e i rows l) = i + length rows"
  by (induction rows arbitrary: i l) auto

lemma dephead_loop_keeps_false:
  "length l = i \<Longrightarrow> q < i \<Longrightarrow> \<not> l ! q \<Longrightarrow> \<not> dephead_loop e i rows l ! q"
proof (induction rows arbitrary: i l)
  case Nil
  then show ?case by simp
next
  case (Cons row rows)
  obtain ij cl cj c tok where row: "row = (ij, cl, cj, c, tok)"
    by (cases row) auto
  let ?l' = "if cj \<or> c then replicate (i + 1) False
             else if cl \<or> ij then l @ [False] else l @ [is_dephead e tok]"
  have "length ?l' = Suc i" using Cons.prems by simp
  moreover have "q < Suc i" using Cons.prems by simp
  moreover have "\<not> ?l' ! q" using Cons.prems by (simp add: nth_append del: replicate.simps)
  ultimately have "\<not> dephead_loop e (Suc i) rows ?l' ! q" by (rule Cons.IH)
  then show ?case by (simp add: row)
qed

lemma dephead_loop_reset:
  "length l = i \<Longrightarrow> p < length rows \<Longrightarrow>
   fst (snd (snd (rows ! p))) \<or> fst (snd (snd (snd (rows ! p)))) \<Longrightarrow>
   q \<le> i + p \<Longrightarrow> \<not> dephead_loop e i rows l ! q"
proof (induction rows arbitrary: i l p)
  case Nil
  then show ?case by simp
next
  case (Cons row rows)
  obtain ij cl cj c tok where row: "row = (ij, cl, cj, c, tok)"
    by (cases row) auto
  let ?l' = "if cj \<or> c then replicate (i + 1) False
             else if cl \<or> ij then l @ [False] else l @ [is_dephead e tok]"
  have len: "length ?l' = Suc i" using Cons.prems by simp
  show ?case
  proof (cases p)
    case 0
    with Cons.prems row have "cj \<or> c" by simp
    then have "\<not> ?l' ! q" using Cons.prems 0 by (auto simp del: replicate.simps)
    moreover have "q < Suc i" using Cons.prems 0 by simp
    ultimately have "\<not> dephead_loop e (Suc i) rows ?l' ! q"
      using len by (intro dephead_loop_keeps_false)
    then show ?thesis by (simp add: row)
  next
    case (Suc p')
    with Cons.prems have "p' < length rows"
      and "fst (snd (snd (rows ! p'))) \<or> fst (snd (snd (snd (rows ! p'))))"
      and "q \<le> Suc i + p'"
      by simp_all
    with len have "\<not> dephead_loop e (Suc i) rows ?l' ! q" by (intro Cons.IH)
    then show ?thesis by (simp add: row)
  qed
qed

lemma countable_loop_map:
  "countable_loop rows l =
     l @ map (\<lambda>(parenthetical, vocative, dephead, tok). dephead \<and> \<not> parenthetical \<and> \<not> vocative) rows"
  by (induction rows arbitrary: l) auto

lemma countable_loop_nth:
  assumes "q < length ps" and "length ps = length vs" and "length vs = length ds"
    and "length ds = length pf"
  shows "countable_loop (zip ps (zip vs (zip ds pf))) [] ! q = (ds ! q \<and> \<not> ps ! q \<and> \<not> vs ! q)"
  using assms by (simp add: countable_loop_map)

lemma countable_loop_length:
  "length (countable_loop rows l) = length l + length rows"
  by (simp add: countable_loop_map)

text \<open>What \<open>classify\<close> returns, field by field.\<close>

lemma classify_fields:
  assumes "classify e = Some st"
  shows "prefield_interjection_status st = map (is_prefield_interjection e) (prefield e)"
    and "collect (is_prefield_clitic e) (prefield e) = Some (prefield_clitic_status st)"
    and "prefield_conjunction_status st = map (is_prefield_conjunction e) (prefield e)"
    and "collect (is_c_element e) (prefield e) = Some (prefield_c_status st)"
    and "prefield_dephead_status st =
           dephead_loop e 0
             (zip (prefield_interjection_status st)
                (zip (prefield_clitic_status st)
                   (zip (prefield_conjunction_status st)
                      (zip (prefield_c_status st) (prefield e))))) []"
    and "prefield_parenthetical_status st = map (is_parenthetical e) (prefield e)"
    and "prefield_vocative_status st = map (is_vocative e) (prefield e)"
    and "prefield_countable_head_status st =
           countable_loop
             (zip (prefield_parenthetical_status st)
                (zip (prefield_vocative_status st)
                   (zip (prefield_dephead_status st) (prefield e)))) []"
  using assms by (auto simp: classify_def Let_def split: Option.bind_splits)

lemma classify_lengths:
  assumes "classify e = Some st"
  shows "length (prefield_clitic_status st) = length (prefield e)"
    and "length (prefield_c_status st) = length (prefield e)"
    and "length (prefield_dephead_status st) = length (prefield e)"
    and "length (prefield_countable_head_status st) = length (prefield e)"
proof -
  note f = classify_fields [OF assms]
  show cl: "length (prefield_clitic_status st) = length (prefield e)"
    using f(2) by (rule collect_length)
  show c: "length (prefield_c_status st) = length (prefield e)"
    using f(4) by (rule collect_length)
  show d: "length (prefield_dephead_status st) = length (prefield e)"
    by (subst f(5), subst dephead_loop_length) (simp_all add: f(1) f(3) cl c)
  show "length (prefield_countable_head_status st) = length (prefield e)"
    by (subst f(8)) (simp add: countable_loop_length f(6) f(7) d)
qed

subsection \<open>The ranking loop\<close>

lemma flagged_rev: "flagged (rev rows) = rev (flagged rows)"
  by (simp add: flagged_def rev_map rev_filter)

lemma flagged_Cons: "flagged ((s, tok) # rows) = (if s then tok # flagged rows else flagged rows)"
  by (simp add: flagged_def)

lemma flagged_Nil: "flagged [] = []"
  by (simp add: flagged_def)

lemma forms_where_flagged: "forms_where a rows = map (\<lambda>tok. form (tok_at a tok)) (flagged rows)"
  by (induction rows) (auto simp: flagged_def)

lemma flagged_nth:
  "tok \<in> set (flagged (zip cs pf)) \<Longrightarrow> \<exists>m. m < length pf \<and> m < length cs \<and> cs ! m \<and> pf ! m = tok"
proof -
  assume "tok \<in> set (flagged (zip cs pf))"
  then have "(True, tok) \<in> set (zip cs pf)" by (auto simp: flagged_def)
  then obtain m where "m < length (zip cs pf)" and "zip cs pf ! m = (True, tok)"
    by (auto simp: in_set_conv_nth)
  then show ?thesis by (intro exI [of _ m]) auto
qed

lemma flagged_sorted:
  "sorted_wrt (<) pf \<Longrightarrow> sorted_wrt (<) (flagged (zip cs pf))"
proof (induction pf arbitrary: cs)
  case Nil
  then show ?case by (simp add: flagged_def)
next
  case (Cons x pf)
  show ?case
  proof (cases cs)
    case Nil
    then show ?thesis by (simp add: flagged_def)
  next
    case (Cons c cs')
    have "\<forall>y \<in> set (flagged (zip cs' pf)). x < y"
      using Cons.prems by (auto dest!: flagged_nth)
    with Cons.IH [of cs'] Cons.prems Cons show ?thesis
      by (simp add: flagged_Cons)
  qed
qed

text \<open>The ranks go in order to the flagged tokens, until the ranks or the tokens run out.\<close>

lemma rank_trace_zip: "rank_trace i rows = zip [Suc i..<5] (flagged rows)"
proof (induction rows arbitrary: i)
  case Nil
  then show ?case by (simp add: flagged_Nil)
next
  case (Cons row rows)
  obtain s tok where row: "row = (s, tok)" by (cases row)
  show ?case
  proof (cases "s \<and> i < 4")
    case True
    then have "[Suc i..<5] = Suc i # [Suc (Suc i)..<5]" by (simp add: upt_conv_Cons)
    with True Cons.IH [of "Suc i"] show ?thesis by (simp add: row flagged_Cons)
  next
    case False
    with Cons.IH [of i] Cons.IH [of "Suc i"] show ?thesis by (auto simp: row flagged_Cons)
  qed
qed

lemma rank_loop_trace:
  "rank_loop e i rows tg =
     foldl (\<lambda>tg (k, tok). tg(rank_key k \<mapsto> Str (tag_form e tok))) tg (rank_trace i rows)"
  by (induction rows arbitrary: i tg) auto

lemma rank_key_upto4:
  "rank_key 0 = ''T-0_form''" "rank_key (Suc 0) = ''T-1_form''" "rank_key 2 = ''T-2_form''"
  "rank_key 3 = ''T-3_form''" "rank_key 4 = ''T-4_form''"
  by code_simp+

lemma upto4: "k \<le> 4 \<longleftrightarrow> k = 0 \<or> k = Suc 0 \<or> k = 2 \<or> k = 3 \<or> k = (4::nat)"
  by arith

lemma rank_key_inj4: "j \<le> 4 \<Longrightarrow> k \<le> 4 \<Longrightarrow> rank_key j = rank_key k \<longleftrightarrow> j = k"
  unfolding upto4 by (elim disjE; simp add: rank_key_upto4)

lemma rank_loop_other:
  "\<forall>k. 1 \<le> k \<and> k \<le> 4 \<longrightarrow> key \<noteq> rank_key k \<Longrightarrow> rank_loop e i rows tg key = tg key"
  by (induction rows arbitrary: i tg) auto

lemma rank_loop_below:
  "k \<le> i \<Longrightarrow> k \<le> 4 \<Longrightarrow> rank_loop e i rows tg (rank_key k) = tg (rank_key k)"
proof (induction rows arbitrary: i tg)
  case Nil
  then show ?case by simp
next
  case (Cons row rows)
  obtain s tok where row: "row = (s, tok)" by (cases row)
  from Cons.prems have "i < 4 \<Longrightarrow> rank_key (Suc i) \<noteq> rank_key k"
    by (simp add: rank_key_inj4)
  with Cons.prems Cons.IH [of i tg] Cons.IH [of "Suc i"] show ?case
    by (auto simp: row)
qed

lemma rank_loop_lookup:
  "i < k \<Longrightarrow> k \<le> 4 \<Longrightarrow>
   rank_loop e i rows tg (rank_key k) =
     (if k - i \<le> length (flagged rows)
      then Some (Str (tag_form e (flagged rows ! (k - i - 1))))
      else tg (rank_key k))"
proof (induction rows arbitrary: i tg)
  case Nil
  then show ?case by (simp add: flagged_Nil)
next
  case (Cons row rows)
  obtain s tok where row: "row = (s, tok)" by (cases row)
  show ?case
  proof (cases s)
    case False
    with Cons.IH [of i tg] Cons.prems show ?thesis by (simp add: row flagged_Cons)
  next
    case True
    let ?tg = "tg(rank_key (Suc i) \<mapsto> Str (tag_form e tok))"
    have step: "rank_loop e i (row # rows) tg = rank_loop e (Suc i) rows ?tg"
      using True Cons.prems by (simp add: row)
    show ?thesis
    proof (cases "k = Suc i")
      case True
      then have "rank_loop e (Suc i) rows ?tg (rank_key k) = ?tg (rank_key k)"
        using Cons.prems by (intro rank_loop_below) simp_all
      with True \<open>s\<close> Cons.prems show ?thesis by (simp add: row flagged_Cons)
    next
      case False
      with Cons.prems have lt: "Suc i < k" by simp
      then have neq: "rank_key k \<noteq> rank_key (Suc i)"
        using Cons.prems by (simp add: rank_key_inj4)
      have ih: "rank_loop e (Suc i) rows ?tg (rank_key k) =
          (if k - Suc i \<le> length (flagged rows)
           then Some (Str (tag_form e (flagged rows ! (k - Suc i - 1))))
           else tg (rank_key k))"
      proof -
        have u: "?tg (rank_key k) = tg (rank_key k)" using neq by simp
        show ?thesis
          by (subst Cons.IH [OF lt Cons.prems(2), of ?tg], subst u, rule refl)
      qed
      from lt obtain d where k: "k = Suc (Suc (i + d))"
        by (auto simp: less_iff_Suc_add)
      have a1: "(k - i \<le> length (flagged (row # rows))) = (k - Suc i \<le> length (flagged rows))"
        using \<open>s\<close> by (simp add: row flagged_Cons k)
      have a2: "flagged (row # rows) ! (k - i - 1) = flagged rows ! (k - Suc i - 1)"
        using \<open>s\<close> by (simp add: row flagged_Cons k)
      show ?thesis by (simp only: step ih a1 a2)
    qed
  qed
qed

subsection \<open>The reset law\<close>

lemma locate_env:
  assumes "locate a l = Inr e"
  shows "an e = a" and "lang e = l" and "sorted_wrt (<) (prefield e)" and "distinct (prefield e)"
    and "prefield e = slice [0..<length (toks (hit a))] (w1 e) (T e)"
proof -
  from assms obtain t ks h where e:
    "e = \<lparr>an = a, lang = l, T = t, head = h, w1 = get_w1 a h,
          prefield = slice [0..<length (toks (hit a))] (get_w1 a h) t\<rparr>"
    by (auto simp: locate_def Let_def split: list.splits option.splits)
  show "an e = a" and "lang e = l"
    and "prefield e = slice [0..<length (toks (hit a))] (w1 e) (T e)"
    by (simp_all add: e)
  have "sorted_wrt (<) (slice [0..<length (toks (hit a))] (get_w1 a h) t)"
    unfolding slice_def by (intro sorted_wrt_take sorted_wrt_drop) simp
  then show "sorted_wrt (<) (prefield e)" by (simp add: e)
  have "distinct (slice [0..<length (toks (hit a))] (get_w1 a h) t)"
    unfolding slice_def by (intro distinct_take distinct_drop) simp
  then show "distinct (prefield e)" by (simp add: e)
qed

lemma reset_flags:
  assumes st: "classify e = Some st" and i: "i < length (prefield e)"
    and reset: "is_prefield_conjunction e (prefield e ! i) \<or>
                is_c_element e (prefield e ! i) = Some True"
    and j: "j \<le> i"
  shows "\<not> prefield_dephead_status st ! j" and "\<not> prefield_countable_head_status st ! j"
proof -
  note f = classify_fields [OF st] and len = classify_lengths [OF st]
  let ?rows = "zip (prefield_interjection_status st)
                 (zip (prefield_clitic_status st)
                    (zip (prefield_conjunction_status st)
                       (zip (prefield_c_status st) (prefield e))))"
  have rows: "i < length ?rows" using i len by (simp add: f(1) f(3))
  have "is_c_element e (prefield e ! i) = Some (prefield_c_status st ! i)"
    using f(4) i by (rule collect_nth)
  with reset i have "prefield_conjunction_status st ! i \<or> prefield_c_status st ! i"
    by (auto simp: f(3))
  then have "fst (snd (snd (?rows ! i))) \<or> fst (snd (snd (snd (?rows ! i))))"
    using rows by simp
  with rows have "\<not> dephead_loop e 0 ?rows [] ! j"
    using j by (intro dephead_loop_reset [where p = i]) simp_all
  then show d: "\<not> prefield_dephead_status st ! j" by (simp add: f(5))
  have "j < length (prefield_parenthetical_status st)" using i j by (simp add: f(6))
  then have "countable_loop
        (zip (prefield_parenthetical_status st)
           (zip (prefield_vocative_status st)
              (zip (prefield_dephead_status st) (prefield e)))) [] ! j =
      (prefield_dephead_status st ! j \<and> \<not> prefield_parenthetical_status st ! j \<and>
       \<not> prefield_vocative_status st ! j)"
    by (intro countable_loop_nth) (simp_all add: f(6) f(7) len)
  with d show "\<not> prefield_countable_head_status st ! j" by (simp add: f(8) [symmetric])
qed

text \<open>
  C1. In every analysis, when the prefield token at index \<open>i\<close> is a conjunction or a
  complementizer, the countable-head flag is false at every index \<open>j \<le> i\<close> of the
  prefield, and no token at a clause position up to that of the token (the token itself
  included) is among the tokens of the countable-head list or is given a rank.
\<close>

theorem reset_law:
  assumes "locate a l = Inr e" and "classify e = Some st" and "i < length (prefield e)"
    and "is_prefield_conjunction e (prefield e ! i) \<or>
         is_c_element e (prefield e ! i) = Some True"
  shows "(\<forall>j. j \<le> i \<longrightarrow> \<not> prefield_countable_head_status st ! j) \<and>
         (\<forall>t. t \<le> prefield e ! i \<longrightarrow>
            t \<notin> set (flagged (zip (prefield_countable_head_status st) (prefield e))) \<and>
            (\<forall>k. (k, t) \<notin>
               set (rank_trace 0 (rev (zip (prefield_countable_head_status st) (prefield e))))))"
proof -
  let ?cs = "prefield_countable_head_status st"
  have flag: "\<not> ?cs ! j" if "j \<le> i" for j
    using assms(2-4) that by (rule reset_flags)
  have sorted: "sorted_wrt (<) (prefield e)" using assms(1) by (rule locate_env)
  have not_in: "t \<notin> set (flagged (zip ?cs (prefield e)))" if t: "t \<le> prefield e ! i" for t
  proof
    assume "t \<in> set (flagged (zip ?cs (prefield e)))"
    then obtain m where m: "m < length (prefield e)" "?cs ! m" "prefield e ! m = t"
      by (auto dest: flagged_nth)
    have "m \<le> i"
    proof (rule ccontr)
      assume "\<not> m \<le> i"
      then have "i < m" by simp
      with sorted have "prefield e ! i < prefield e ! m"
        using m(1) by (rule sorted_wrt_nth_less)
      with t m(3) show False by simp
    qed
    with m(2) flag show False by blast
  qed
  have not_ranked: "(k, t) \<notin> set (rank_trace 0 (rev (zip ?cs (prefield e))))"
    if t: "t \<le> prefield e ! i" for t k
  proof
    assume "(k, t) \<in> set (rank_trace 0 (rev (zip ?cs (prefield e))))"
    then have "t \<in> set (flagged (rev (zip ?cs (prefield e))))"
      unfolding rank_trace_zip by (rule set_zip_rightD)
    with not_in [OF t] show False by (simp add: flagged_rev)
  qed
  from flag not_in not_ranked show ?thesis by blast
qed

lemma cl_que_reset:
  "classify (env_of cl_que ''french'' 3 3 0) =
     Some \<lparr>prefield_interjection_status = [False, False, False],
           prefield_clitic_status = [False, False, False],
           prefield_conjunction_status = [True, False, False],
           prefield_c_status = [False, True, False],
           prefield_dephead_status = [False, False, True],
           prefield_parenthetical_status = [False, False, False],
           prefield_vocative_status = [False, False, False],
           prefield_countable_head_status = [False, False, True]\<rparr>"
  "Suc 0 < length (prefield (env_of cl_que ''french'' 3 3 0))"
  "is_prefield_conjunction (env_of cl_que ''french'' 3 3 0)
     (prefield (env_of cl_que ''french'' 3 3 0) ! Suc 0) \<or>
   is_c_element (env_of cl_que ''french'' 3 3 0)
     (prefield (env_of cl_que ''french'' 3 3 0) ! Suc 0) = Some True"
  by code_simp+

theorem reset_law_witness:
  "is_c_element (env_of cl_que ''french'' 3 3 0) (Suc 0) = Some True \<and>
   map_option prefield_countable_head_status (classify (env_of cl_que ''french'' 3 3 0)) =
     Some [False, False, True] \<and>
   0 \<notin> set (flagged (zip [False, False, True] [0, Suc 0, 2])) \<and>
   (\<forall>k. (k, 0) \<notin> set (rank_trace 0 (rev (zip [False, False, True] [0, Suc 0, 2]))))"
proof -
  have c: "is_c_element (env_of cl_que ''french'' 3 3 0) (Suc 0) = Some True"
    by code_simp
  have pf: "prefield (env_of cl_que ''french'' 3 3 0) = [0, Suc 0, 2]"
    by code_simp
  note r = reset_law [OF locate_cl_que cl_que_reset(1) cl_que_reset(2) cl_que_reset(3)]
  from r [THEN conjunct2, rule_format, of 0] show ?thesis
    by (simp add: c pf cl_que_reset(1))
qed

subsection \<open>Selection and ranks\<close>

lemma upt_1_5: "[Suc 0..<5] = [Suc 0, 2, 3, 4]"
  by code_simp

lemma init_ranks_lookup: "1 \<le> k \<Longrightarrow> k \<le> 4 \<Longrightarrow> init_ranks tg (rank_key k) = Some (Str [])"
  unfolding upto4 by (elim disjE; simp add: init_ranks_def upt_1_5 rank_key_upto4)

lemma init_ranks_other:
  "\<forall>k. 1 \<le> k \<and> k \<le> 4 \<longrightarrow> key \<noteq> rank_key k \<Longrightarrow> init_ranks tg key = tg key"
proof -
  assume a: "\<forall>k. 1 \<le> k \<and> k \<le> 4 \<longrightarrow> key \<noteq> rank_key k"
  from a [rule_format, of "Suc 0"] a [rule_format, of 2] a [rule_format, of 3] a [rule_format, of 4]
  show ?thesis by (simp add: init_ranks_def upt_1_5)
qed

lemma write_tags_rank:
  "1 \<le> k \<Longrightarrow> k \<le> 4 \<Longrightarrow>
   write_tags e st tg (rank_key k) =
     rank_loop e 0 (rev (zip (prefield_countable_head_status st) (prefield e)))
       (init_ranks tg) (rank_key k)"
  unfolding upto4 by (elim disjE; simp add: write_tags_def Let_def rank_key_upto4)

lemma base_tag_fr_nonempty: "base_tag_fr a tok \<noteq> []"
  by (simp add: base_tag_fr_def)

lemma tag_form_fr_nonempty: "tag_form_fr a tok \<noteq> []"
  by (simp add: tag_form_fr_def Let_def base_tag_fr_nonempty)

lemma script_returns:
  "locate a l = Inr e \<Longrightarrow> classify e = Some st \<Longrightarrow>
   script a l = Some (Inr (write_tags e st (tags (hit a))))"
  by (simp add: script_def)

text \<open>
  C2. Let \<open>q\<close> be the qualifying tokens of the prefield, nearest to the verb first. The
  call returns; its ranking loop gives the ranks 1, 2, ... in that order to the tokens of
  \<open>q\<close>, so that \<open>min 4 (length q)\<close> ranks are filled; the clause positions of \<open>q\<close>
  decrease strictly; after the call the entry of a filled rank is the tag of its token and
  the entry of every other rank is the empty string. For French a filled rank is never
  empty.
\<close>

theorem rank_selection:
  assumes "locate a l = Inr e" and "classify e = Some st"
    and "q = rev (flagged (zip (prefield_countable_head_status st) (prefield e)))"
    and "tg = write_tags e st (tags (hit a))"
  shows "script a l = Some (Inr tg) \<and>
         rank_trace 0 (rev (zip (prefield_countable_head_status st) (prefield e))) =
           zip [1..<5] q \<and>
         length (zip [1..<5] q) = min 4 (length q) \<and>
         sorted_wrt (>) q \<and>
         (\<forall>k. 1 \<le> k \<and> k \<le> 4 \<longrightarrow>
            tg (rank_key k) =
              Some (Str (if k \<le> length q then tag_form e (q ! (k - 1)) else []))) \<and>
         (lang e = ''french'' \<longrightarrow>
            (\<forall>k. 1 \<le> k \<and> k \<le> min 4 (length q) \<longrightarrow> tg (rank_key k) \<noteq> Some (Str [])))"
proof -
  let ?rows = "rev (zip (prefield_countable_head_status st) (prefield e))"
  have q: "flagged ?rows = q" by (simp add: assms(3) flagged_rev)
  have ret: "script a l = Some (Inr tg)"
    using assms(1) assms(2) by (simp add: assms(4) script_returns)
  have trace: "rank_trace 0 ?rows = zip [1..<5] q"
    by (simp add: rank_trace_zip q)
  have len: "length (zip [1..<5] q) = min 4 (length q)"
    by simp
  have "sorted_wrt (<) (prefield e)" using assms(1) by (rule locate_env)
  then have "sorted_wrt (<) (flagged (zip (prefield_countable_head_status st) (prefield e)))"
    by (rule flagged_sorted)
  then have sorted: "sorted_wrt (>) q"
    by (simp add: assms(3) sorted_wrt_rev)
  have look: "tg (rank_key k) = Some (Str (if k \<le> length q then tag_form e (q ! (k - 1)) else []))"
    if "1 \<le> k \<and> k \<le> 4" for k
  proof -
    from that have k: "1 \<le> k" "k \<le> 4" "0 < k" by simp_all
    have "tg (rank_key k) = rank_loop e 0 ?rows (init_ranks (tags (hit a))) (rank_key k)"
      unfolding assms(4) using k(1) k(2) by (rule write_tags_rank)
    also have "\<dots> = (if k - 0 \<le> length (flagged ?rows)
        then Some (Str (tag_form e (flagged ?rows ! (k - 0 - 1))))
        else init_ranks (tags (hit a)) (rank_key k))"
      using k(3) k(2) by (rule rank_loop_lookup)
    also have "\<dots> = Some (Str (if k \<le> length q then tag_form e (q ! (k - 1)) else []))"
      using k by (simp add: q init_ranks_lookup)
    finally show ?thesis .
  qed
  have french: "tg (rank_key k) \<noteq> Some (Str [])"
    if "lang e = ''french''" and "1 \<le> k \<and> k \<le> min 4 (length q)" for k
  proof -
    from that(2) have "1 \<le> k \<and> k \<le> 4" and "k \<le> length q" by simp_all
    with look [of k] that(1) show ?thesis
      by (simp add: tag_form_def tag_form_fr_nonempty)
  qed
  from ret trace len sorted look french show ?thesis by blast
qed

lemma cl_six_classify:
  "classify (env_of cl_six ''french'' 6 6 0) =
     Some \<lparr>prefield_interjection_status = [False, False, False, False, False, False],
           prefield_clitic_status = [False, False, False, False, False, False],
           prefield_conjunction_status = [False, False, False, False, False, False],
           prefield_c_status = [False, False, False, False, False, False],
           prefield_dephead_status = [True, True, True, True, True, True],
           prefield_parenthetical_status = [False, False, False, False, False, False],
           prefield_vocative_status = [False, False, False, False, False, False],
           prefield_countable_head_status = [True, True, True, True, True, True]\<rparr>"
  by code_simp

lemma cl_six_heads:
  "rev (flagged (zip [True, True, True, True, True, True]
     (prefield (env_of cl_six ''french'' 6 6 0)))) = [5, 4, 3, 2, Suc 0, 0]"
  "tag_form (env_of cl_six ''french'' 6 6 0) 5 = ''XX''"
  "tag_form (env_of cl_six ''french'' 6 6 0) 4 = ''NP''"
  "tag_form (env_of cl_six ''french'' 6 6 0) 3 = ''ADVP''"
  "tag_form (env_of cl_six ''french'' 6 6 0) 2 = ''AP''"
  by code_simp+

theorem rank_selection_witness:
  "entries (script cl_six ''french'') [rank_key (Suc 0), rank_key 2, rank_key 3, rank_key 4] =
     Some (Inr [Some (Str ''XX''), Some (Str ''NP''), Some (Str ''ADVP''), Some (Str ''AP'')]) \<and>
   sorted_wrt (>) [5, 4, 3, 2, Suc 0, 0::nat]"
proof -
  note r = rank_selection [OF locate_cl_six cl_six_classify refl refl]
  from r have s: "script cl_six ''french'' =
      Some (Inr (write_tags (env_of cl_six ''french'' 6 6 0)
        \<lparr>prefield_interjection_status = [False, False, False, False, False, False],
           prefield_clitic_status = [False, False, False, False, False, False],
           prefield_conjunction_status = [False, False, False, False, False, False],
           prefield_c_status = [False, False, False, False, False, False],
           prefield_dephead_status = [True, True, True, True, True, True],
           prefield_parenthetical_status = [False, False, False, False, False, False],
           prefield_vocative_status = [False, False, False, False, False, False],
           prefield_countable_head_status = [True, True, True, True, True, True]\<rparr>
        (tags (hit cl_six))))"
    by (rule conjunct1)
  from r have look: "\<forall>k. 1 \<le> k \<and> k \<le> 4 \<longrightarrow>
      write_tags (env_of cl_six ''french'' 6 6 0)
        \<lparr>prefield_interjection_status = [False, False, False, False, False, False],
           prefield_clitic_status = [False, False, False, False, False, False],
           prefield_conjunction_status = [False, False, False, False, False, False],
           prefield_c_status = [False, False, False, False, False, False],
           prefield_dephead_status = [True, True, True, True, True, True],
           prefield_parenthetical_status = [False, False, False, False, False, False],
           prefield_vocative_status = [False, False, False, False, False, False],
           prefield_countable_head_status = [True, True, True, True, True, True]\<rparr>
        (tags (hit cl_six)) (rank_key k) =
      Some (Str (if k \<le> length [5, 4, 3, 2, Suc 0, 0::nat]
                 then tag_form (env_of cl_six ''french'' 6 6 0) ([5, 4, 3, 2, Suc 0, 0] ! (k - 1))
                 else []))"
    by (simp add: cl_six_heads(1))
  from r have sorted: "sorted_wrt (>) [5, 4, 3, 2, Suc 0, 0::nat]"
    by (simp add: cl_six_heads(1))
  from look [rule_format, of "Suc 0"] look [rule_format, of 2] look [rule_format, of 3]
    look [rule_format, of 4] sorted
  show ?thesis
    by (simp add: s entries_def cl_six_heads)
qed

subsection \<open>The keys the call writes\<close>

lemma not_rank_key:
  assumes "key \<notin> set script_keys"
  shows "\<forall>k. 1 \<le> k \<and> k \<le> 4 \<longrightarrow> key \<noteq> rank_key k"
proof (intro allI impI)
  fix k :: nat
  assume "1 \<le> k \<and> k \<le> 4"
  then have "k = Suc 0 \<or> k = 2 \<or> k = 3 \<or> k = 4" by arith
  with assms show "key \<noteq> rank_key k"
    by (auto simp: script_keys_def rank_key_upto4)
qed

lemma write_tags_other:
  assumes "key \<notin> set script_keys"
  shows "write_tags e st tg key = tg key"
proof -
  note nk = not_rank_key [OF assms]
  have "rank_loop e 0 (rev (zip (prefield_countable_head_status st) (prefield e)))
          (init_ranks tg) key = tg key"
    using nk by (simp add: rank_loop_other init_ranks_other)
  with assms show ?thesis
    by (simp add: write_tags_def Let_def script_keys_def)
qed

lemma write_tags_rank_present:
  assumes "1 \<le> k" and "k \<le> 4"
  shows "\<exists>s. write_tags e st tg (rank_key k) = Some (Str s)"
proof -
  from assms have "0 < k" by simp
  then have "rank_loop e 0 (rev (zip (prefield_countable_head_status st) (prefield e)))
      (init_ranks tg) (rank_key k) =
    (if k - 0 \<le> length (flagged (rev (zip (prefield_countable_head_status st) (prefield e))))
     then Some (Str (tag_form e
        (flagged (rev (zip (prefield_countable_head_status st) (prefield e))) ! (k - 0 - 1))))
     else init_ranks tg (rank_key k))"
    using assms(2) by (rule rank_loop_lookup)
  with assms show ?thesis
    by (simp add: write_tags_rank init_ranks_lookup)
qed

lemma write_tags_present:
  assumes "key \<in> set script_keys"
  shows "write_tags e st tg key \<noteq> None"
proof -
  from assms consider (rank) k where "1 \<le> k" "k \<le> 4" "key = rank_key k"
    | (diag) "key \<in> set [''prefield_clitics'', ''prefield_conjunctions'', ''prefield_cs'',
        ''prefield_countable_heads'', ''T'', ''head'', ''w1'', ''prefield'']"
  proof -
    have "key = rank_key (Suc 0) \<or> key = rank_key 2 \<or> key = rank_key 3 \<or> key = rank_key 4 \<or>
      key \<in> set [''prefield_clitics'', ''prefield_conjunctions'', ''prefield_cs'',
        ''prefield_countable_heads'', ''T'', ''head'', ''w1'', ''prefield'']"
      using assms by (auto simp: script_keys_def rank_key_upto4)
    then show ?thesis
      by (elim disjE) (rule rank [of "Suc 0"] rank [of 2] rank [of 3] rank [of 4] diag; simp)+
  qed
  then show ?thesis
  proof cases
    case rank
    with write_tags_rank_present [of k e st tg] show ?thesis by auto
  next
    case diag
    then show ?thesis by (auto simp: write_tags_def Let_def)
  qed
qed

text \<open>
  C9. A call that returns leaves every key outside the twelve of \<open>script_keys\<close> as it
  was (bound to the same value, or unbound), and leaves each of the twelve bound. The four
  rank keys hold strings; they are set to the empty string before the ranking loop runs. A
  call that raises or does not return writes nothing (both happen before the first write).
\<close>

theorem script_frame:
  assumes "script a l = Some (Inr tg)"
  shows "(\<forall>key. key \<notin> set script_keys \<longrightarrow> tg key = tags (hit a) key) \<and>
         (\<forall>key \<in> set script_keys. tg key \<noteq> None) \<and>
         (\<forall>k. 1 \<le> k \<and> k \<le> 4 \<longrightarrow>
            rank_key k \<in> set script_keys \<and> (\<exists>s. tg (rank_key k) = Some (Str s)) \<and>
            init_ranks (tags (hit a)) (rank_key k) = Some (Str []))"
proof -
  from assms obtain e st where tg: "tg = write_tags e st (tags (hit a))"
    by (auto simp: script_def split: sum.splits Option.bind_splits)
  have "rank_key k \<in> set script_keys" if "1 \<le> k \<and> k \<le> 4" for k
  proof -
    from that have "k = Suc 0 \<or> k = 2 \<or> k = 3 \<or> k = 4" by arith
    then show ?thesis by (auto simp: script_keys_def rank_key_upto4)
  qed
  then show ?thesis
    by (simp add: tg write_tags_other write_tags_present write_tags_rank_present
        init_ranks_lookup)
qed

lemma cl_hier_classify:
  "classify (env_of cl_hier ''french'' 3 3 0) =
     Some \<lparr>prefield_interjection_status = [False, False, False],
           prefield_clitic_status = [False, False, False],
           prefield_conjunction_status = [False, False, False],
           prefield_c_status = [False, False, False],
           prefield_dephead_status = [True, False, True],
           prefield_parenthetical_status = [False, False, False],
           prefield_vocative_status = [False, False, False],
           prefield_countable_head_status = [True, False, True]\<rparr>"
  by code_simp

lemma cl_hier_store:
  "tags (hit cl_hier) ''sent_id'' = Some (Str ''s1'')"
  "tags (hit cl_hier) ''text'' = None"
  "''sent_id'' \<notin> set script_keys" "''text'' \<notin> set script_keys" "''T'' \<in> set script_keys"
  by code_simp+

theorem script_frame_witness:
  "entries (script cl_hier ''french'') [''sent_id'', ''text''] = Some (Inr [Some (Str ''s1''), None]) \<and>
   entries (script cl_hier ''french'') [''T''] \<noteq> Some (Inr [None])"
proof -
  note s = script_returns [OF locate_cl_hier cl_hier_classify]
  note f = script_frame [OF s]
  from f have "\<forall>key. key \<notin> set script_keys \<longrightarrow>
      write_tags (env_of cl_hier ''french'' 3 3 0)
        \<lparr>prefield_interjection_status = [False, False, False],
           prefield_clitic_status = [False, False, False],
           prefield_conjunction_status = [False, False, False],
           prefield_c_status = [False, False, False],
           prefield_dephead_status = [True, False, True],
           prefield_parenthetical_status = [False, False, False],
           prefield_vocative_status = [False, False, False],
           prefield_countable_head_status = [True, False, True]\<rparr>
        (tags (hit cl_hier)) key = tags (hit cl_hier) key"
    by (rule conjunct1)
  from this [rule_format, OF cl_hier_store(3)] this [rule_format, OF cl_hier_store(4)]
    f [THEN conjunct2, THEN conjunct1, rule_format, OF cl_hier_store(5)]
  show ?thesis
    by (simp add: s entries_def cl_hier_store(1) cl_hier_store(2))
qed

subsection \<open>An unrecognized language\<close>

lemma collect_const: "collect (\<lambda>x. Some c) xs = Some (map (\<lambda>x. c) xs)"
  by (induction xs) auto

lemma is_c_element_other: "lang e \<noteq> ''french'' \<Longrightarrow> is_c_element e = (\<lambda>tok. Some False)"
  by (auto simp: is_c_element_def)

lemma is_prefield_clitic_other:
  "lang e \<noteq> ''french'' \<Longrightarrow> is_prefield_clitic e = (\<lambda>tok. Some False)"
  by (auto simp: is_prefield_clitic_def)

lemma classify_other:
  assumes "lang e \<noteq> ''french''"
  shows "\<exists>st. classify e = Some st \<and>
           prefield_clitic_status st = map (\<lambda>tok. False) (prefield e) \<and>
           prefield_c_status st = map (\<lambda>tok. False) (prefield e)"
  by (simp add: classify_def Let_def is_c_element_other [OF assms]
      is_prefield_clitic_other [OF assms] collect_const)

lemma write_tags_other_language:
  assumes "lang e \<noteq> ''french''" and "1 \<le> k" and "k \<le> 4"
  shows "write_tags e st tg (rank_key k) = Some (Str [])"
proof -
  from assms have "0 < k" by simp
  then have "rank_loop e 0 (rev (zip (prefield_countable_head_status st) (prefield e)))
      (init_ranks tg) (rank_key k) =
    (if k - 0 \<le> length (flagged (rev (zip (prefield_countable_head_status st) (prefield e))))
     then Some (Str (tag_form e
        (flagged (rev (zip (prefield_countable_head_status st) (prefield e))) ! (k - 0 - 1))))
     else init_ranks tg (rank_key k))"
    using assms(3) by (rule rank_loop_lookup)
  with assms show ?thesis
    by (simp add: write_tags_rank init_ranks_lookup tag_form_def)
qed

text \<open>
  C4, as the code has it. With a language other than \<^verbatim>\<open>french\<close>, complementizer and
  clitic detection return false for every token and every phrase tag is empty; the
  structural predicates do not depend on the language; \<open>classify\<close> returns, with the
  clitic and complementizer flags all false, so that the reducer runs on the structural
  flags alone; and a call that finds its anchor and head returns, with the four rank
  entries empty. The countable heads are therefore those of a clause in which no token is
  a clitic or a complementizer, not those the French rules select.
\<close>

theorem unrecognized_language:
  assumes "lang e \<noteq> ''french''"
  shows "is_c_element e tok = Some False \<and> is_prefield_clitic e tok = Some False \<and>
         tag_form e tok = [] \<and>
         is_dephead (e\<lparr>lang := l'\<rparr>) tok = is_dephead e tok \<and>
         is_prefield_conjunction (e\<lparr>lang := l'\<rparr>) tok = is_prefield_conjunction e tok \<and>
         is_prefield_interjection (e\<lparr>lang := l'\<rparr>) tok = is_prefield_interjection e tok \<and>
         is_parenthetical (e\<lparr>lang := l'\<rparr>) tok = is_parenthetical e tok \<and>
         is_vocative (e\<lparr>lang := l'\<rparr>) tok = is_vocative e tok \<and>
         (\<exists>st. classify e = Some st \<and>
            prefield_clitic_status st = map (\<lambda>tok. False) (prefield e) \<and>
            prefield_c_status st = map (\<lambda>tok. False) (prefield e) \<and>
            (\<forall>a. locate a (lang e) = Inr e \<longrightarrow>
               script a (lang e) = Some (Inr (write_tags e st (tags (hit a)))) \<and>
               (\<forall>k. 1 \<le> k \<and> k \<le> 4 \<longrightarrow>
                  write_tags e st (tags (hit a)) (rank_key k) = Some (Str []))))"
proof -
  from classify_other [OF assms] obtain st where st: "classify e = Some st"
    "prefield_clitic_status st = map (\<lambda>tok. False) (prefield e)"
    "prefield_c_status st = map (\<lambda>tok. False) (prefield e)"
    by blast
  have structural:
    "is_dephead (e\<lparr>lang := l'\<rparr>) tok = is_dephead e tok"
    "is_prefield_conjunction (e\<lparr>lang := l'\<rparr>) tok = is_prefield_conjunction e tok"
    "is_prefield_interjection (e\<lparr>lang := l'\<rparr>) tok = is_prefield_interjection e tok"
    "is_parenthetical (e\<lparr>lang := l'\<rparr>) tok = is_parenthetical e tok"
    "is_vocative (e\<lparr>lang := l'\<rparr>) tok = is_vocative e tok"
    by (simp_all add: is_dephead_def is_prefield_conjunction_def is_prefield_interjection_def
        is_parenthetical_def is_vocative_def)
  have detect: "is_c_element e tok = Some False" "is_prefield_clitic e tok = Some False"
    "tag_form e tok = []"
    using assms by (simp_all add: is_c_element_def is_prefield_clitic_def tag_form_def)
  have "script a (lang e) = Some (Inr (write_tags e st (tags (hit a)))) \<and>
      (\<forall>k. 1 \<le> k \<and> k \<le> 4 \<longrightarrow> write_tags e st (tags (hit a)) (rank_key k) = Some (Str []))"
    if "locate a (lang e) = Inr e" for a
    using that st(1) assms by (simp add: script_returns write_tags_other_language)
  with st structural detect show ?thesis by blast
qed

theorem unrecognized_language_witness:
  "lang (env_of cl_que ''latin'' 3 3 0) \<noteq> ''french'' \<and>
   is_c_element (env_of cl_que ''latin'' 3 3 0) (Suc 0) = Some False \<and>
   is_prefield_clitic (env_of cl_que ''latin'' 3 3 0) (Suc 0) = Some False \<and>
   tag_form (env_of cl_que ''latin'' 3 3 0) 2 = []"
proof -
  have l: "lang (env_of cl_que ''latin'' 3 3 0) \<noteq> ''french''"
    by (simp add: env_of_def)
  from unrecognized_language [OF l, of "Suc 0"] unrecognized_language [OF l, of 2] l
  show ?thesis by blast
qed

text \<open>
  The claim as it stands fails on \<open>cl_que\<close>: French takes \<^verbatim>\<open>que\<close> for a complementizer
  and counts only \<^verbatim>\<open>Jean\<close>; another language counts \<^verbatim>\<open>que\<close> as well.
\<close>

theorem unrecognized_language_selection:
  "map_option prefield_countable_head_status (classify (env_of cl_que ''french'' 3 3 0)) =
     Some [False, False, True] \<and>
   map_option prefield_countable_head_status (classify (env_of cl_que ''latin'' 3 3 0)) =
     Some [False, True, True] \<and>
   entries (script cl_que ''french'') [''prefield_countable_heads''] =
     Some (Inr [Some (Str ''Jean'')]) \<and>
   entries (script cl_que ''latin'') [''prefield_countable_heads''] =
     Some (Inr [Some (Str ''que Jean'')])"
  by code_simp

subsection \<open>Termination of the two recursions\<close>

lemma is_c_element_fr_parent:
  "\<not> could_be_c_head e tok \<Longrightarrow>
   is_c_element_fr e tok =
     (case get_parent (an e) tok of
        None \<Rightarrow> Some False
      | Some parent \<Rightarrow> do { c \<leftarrow> is_c_element e parent; Some (if c then True else False) })"
  by (subst is_c_element_fr.simps) (simp add: is_c_element_def split: option.splits)

lemma collect_returns: "(\<And>x. \<exists>b. f x = Some b) \<Longrightarrow> \<exists>bs. collect f xs = Some bs"
proof (induction xs)
  case Nil
  then show ?case by simp
next
  case (Cons x xs)
  from Cons.prems obtain b where "f x = Some b" by blast
  moreover from Cons.IH Cons.prems obtain bs where "collect f xs = Some bs" by blast
  ultimately show ?case by simp
qed

lemma tree_an_sel:
  "hit (tree_an ts ks ps tg) = \<lparr>toks = ts, kws = ks, tags = tg\<rparr>"
  "get_parent (tree_an ts ks ps tg) = (\<lambda>i. if i < length ps then ps ! i else None)"
  "get_next_tok (tree_an ts ks ps tg) = (\<lambda>i. if Suc i < length ts then Some (Suc i) else None)"
  by (simp_all add: tree_an_def)

lemma could_be_prefield_clitic_returns:
  assumes right: "\<forall>t n. get_next_tok (an e) t = Some n \<longrightarrow> t < n"
  shows "\<exists>b. could_be_prefield_clitic e tok = Some b"
proof (induction tok rule: measure_induct_rule [where f = "\<lambda>t. Suc (Max (set (prefield e))) - t"])
  case (less tok)
  show ?case
  proof (cases "tok \<in> set (prefield e) \<and> get_children (an e) tok = [] \<and>
      UPOS (tok_at (an e) tok) \<in> set [''PRON'', ''ADV'']")
    case False
    then show ?thesis by (subst could_be_prefield_clitic.simps) auto
  next
    case True
    show ?thesis
    proof (cases "get_next_tok (an e) tok")
      case None
      with True show ?thesis by (subst could_be_prefield_clitic.simps) auto
    next
      case (Some n)
      show ?thesis
      proof (cases "n \<in> set (prefield e)")
        case False
        with True Some show ?thesis by (subst could_be_prefield_clitic.simps) auto
      next
        case n: True
        from right Some have "tok < n" by blast
        moreover from n have "n \<le> Max (set (prefield e))" by simp
        ultimately have "Suc (Max (set (prefield e))) - n < Suc (Max (set (prefield e))) - tok"
          by simp
        then obtain b where "could_be_prefield_clitic e n = Some b"
          using less.IH by blast
        with True Some n show ?thesis by (subst could_be_prefield_clitic.simps) auto
      qed
    qed
  qed
qed

lemma is_c_element_fr_returns:
  assumes "wf (parent_rel (an e))"
  shows "\<exists>b. is_c_element_fr e tok = Some b"
  using assms
proof (induction tok rule: wf_induct_rule)
  case (less tok)
  show ?case
  proof (cases "could_be_c_head e tok")
    case True
    then show ?thesis by (subst is_c_element_fr.simps) auto
  next
    case False
    show ?thesis
    proof (cases "get_parent (an e) tok")
      case None
      with False show ?thesis by (subst is_c_element_fr.simps) auto
    next
      case (Some p)
      then have "(p, tok) \<in> parent_rel (an e)" by (simp add: parent_rel_def)
      then obtain b where "is_c_element_fr e p = Some b" using less.IH by blast
      with False Some show ?thesis by (subst is_c_element_fr.simps) auto
    qed
  qed
qed

text \<open>
  C10. When the navigator's next token always lies to the right and the parent relation is
  finite and acyclic, \<^verbatim>\<open>could_be_prefield_clitic\<close>, \<^verbatim>\<open>_is_c_element_fr\<close> and
  \<^verbatim>\<open>is_c_element\<close> return on every token, and so does the whole call.
\<close>

theorem recursions_terminate:
  assumes "\<forall>t n. get_next_tok (an e) t = Some n \<longrightarrow> t < n"
    and "finite (parent_rel (an e))" and "acyclic (parent_rel (an e))"
  shows "(\<exists>b. could_be_prefield_clitic e tok = Some b) \<and>
         (\<exists>b. is_c_element_fr e tok = Some b) \<and>
         (\<exists>b. is_c_element e tok = Some b) \<and>
         (\<exists>b. is_prefield_clitic e tok = Some b) \<and>
         (\<exists>st. classify e = Some st)"
proof -
  have wf: "wf (parent_rel (an e))"
    using assms(2) assms(3) by (rule finite_acyclic_wf)
  have clitic: "\<exists>b. could_be_prefield_clitic e t = Some b" for t
    using assms(1) by (rule could_be_prefield_clitic_returns)
  have c_fr: "\<exists>b. is_c_element_fr e t = Some b" for t
    using wf by (rule is_c_element_fr_returns)
  have c: "\<exists>b. is_c_element e t = Some b" for t
    using c_fr [of t] by (auto simp: is_c_element_def)
  have cl: "\<exists>b. is_prefield_clitic e t = Some b" for t
    using clitic [of t]
    by (auto simp: is_prefield_clitic_def is_prefield_clitic_fr_def)
  from collect_returns [of "is_c_element e" "prefield e", OF c]
  obtain cs where "collect (is_c_element e) (prefield e) = Some cs" by blast
  moreover from collect_returns [of "is_prefield_clitic e" "prefield e", OF cl]
  obtain cls where "collect (is_prefield_clitic e) (prefield e) = Some cls" by blast
  ultimately have "\<exists>st. classify e = Some st"
    by (simp add: classify_def Let_def)
  with clitic [of tok] c_fr [of tok] c [of tok] cl [of tok] show ?thesis by blast
qed

lemma cl_hier_parents: "parent_rel cl_hier = {(3, 0), (3, Suc 0), (3, 2)}"
proof -
  have "get_parent cl_hier t = Some p \<longleftrightarrow> p = 3 \<and> (t = 0 \<or> t = Suc 0 \<or> t = 2)" for t p
  proof -
    have g: "get_parent cl_hier =
        (\<lambda>i. if i < length [Some 3, Some 3, Some 3, None :: nat option]
             then [Some 3, Some 3, Some 3, None] ! i else None)"
      unfolding cl_hier_def tree_an_sel by (rule refl)
    consider "t = 0" | "t = Suc 0" | "t = 2" | "t = 3" | "4 \<le> t" by arith
    then show ?thesis by cases (auto simp: g)
  qed
  then show ?thesis by (auto simp: parent_rel_def)
qed

lemma cl_hier_contract:
  "\<forall>t n. get_next_tok (an (env_of cl_hier ''french'' 3 3 0)) t = Some n \<longrightarrow> t < n"
  "finite (parent_rel (an (env_of cl_hier ''french'' 3 3 0)))"
  "acyclic (parent_rel (an (env_of cl_hier ''french'' 3 3 0)))"
proof -
  show "\<forall>t n. get_next_tok (an (env_of cl_hier ''french'' 3 3 0)) t = Some n \<longrightarrow> t < n"
    by (auto simp: env_of_def cl_hier_def tree_an_sel split: if_splits)
  have an: "an (env_of cl_hier ''french'' 3 3 0) = cl_hier" by (simp add: env_of_def)
  show "finite (parent_rel (an (env_of cl_hier ''french'' 3 3 0)))"
    by (simp add: an cl_hier_parents)
  have "parent_rel cl_hier \<subseteq> measure (\<lambda>t. if t = 3 then 0 else Suc 0)"
    by (auto simp: cl_hier_parents)
  then have "wf (parent_rel cl_hier)" by (rule wf_subset [OF wf_measure])
  then show "acyclic (parent_rel (an (env_of cl_hier ''french'' 3 3 0)))"
    by (simp add: an wf_acyclic)
qed

theorem recursions_terminate_witness:
  "could_be_prefield_clitic (env_of cl_hier ''french'' 3 3 0) 0 \<noteq> None \<and>
   is_c_element (env_of cl_hier ''french'' 3 3 0) 0 \<noteq> None \<and>
   classify (env_of cl_hier ''french'' 3 3 0) \<noteq> None"
  using recursions_terminate [OF cl_hier_contract, of 0] by auto

subsection \<open>Failures\<close>

lemma no_keyword_fails: "kws (hit a) = [] \<Longrightarrow> script a l = Some (Inl IndexError)"
  by (simp add: script_def locate_def)

lemma collect_returns_on:
  "(\<And>x. x \<in> set xs \<Longrightarrow> \<exists>b. f x = Some b) \<Longrightarrow> \<exists>bs. collect f xs = Some bs"
proof (induction xs)
  case Nil
  then show ?case by simp
next
  case (Cons x xs)
  from Cons.prems obtain b where "f x = Some b" by auto
  moreover from Cons.IH Cons.prems obtain bs where "collect f xs = Some bs" by auto
  ultimately show ?case by simp
qed

lemma is_c_element_fr_chain:
  "chain_ends (an e) tok \<Longrightarrow> \<exists>b. is_c_element_fr e tok = Some b"
proof (induction rule: chain_ends.induct)
  case (chain_root t)
  then show ?case by (subst is_c_element_fr.simps) auto
next
  case (chain_step t p)
  then obtain b where "is_c_element_fr e p = Some b" by blast
  with chain_step.hyps show ?case by (subst is_c_element_fr.simps) auto
qed

lemma classify_returns_on:
  assumes right: "\<forall>t n. get_next_tok (an e) t = Some n \<longrightarrow> t < n"
    and chains: "\<forall>t \<in> set (prefield e). chain_ends (an e) t"
  shows "\<exists>st. classify e = Some st"
proof -
  have "\<exists>b. is_c_element e t = Some b" if "t \<in> set (prefield e)" for t
    using is_c_element_fr_chain [of e t] chains that by (auto simp: is_c_element_def)
  then obtain cs where "collect (is_c_element e) (prefield e) = Some cs"
    using collect_returns_on [of "prefield e" "is_c_element e"] by blast
  moreover have "\<exists>b. is_prefield_clitic e t = Some b" for t
    using could_be_prefield_clitic_returns [OF right, of t]
    by (auto simp: is_prefield_clitic_def is_prefield_clitic_fr_def)
  then obtain cls where "collect (is_prefield_clitic e) (prefield e) = Some cls"
    using collect_returns [of "is_prefield_clitic e" "prefield e"] by blast
  ultimately show ?thesis by (simp add: classify_def Let_def)
qed

text \<open>
  C8, as the code has it. A clause with no keyword makes the call fail at
  \<^verbatim>\<open>hit.kws[0]\<close> with Python's \<^verbatim>\<open>IndexError\<close>, before anything is written: the outcome is
  the error and no store. The tree is not checked. Whenever the anchor and the head are
  found, the navigator's next token lies to the right and the chain of parents of every
  prefield token ends, the call returns and writes its tags, whatever cycle the parents
  of the other tokens hold.
\<close>

theorem anchor_missing_tree_unchecked:
  "(kws (hit a) = [] \<longrightarrow> script a l = Some (Inl IndexError)) \<and>
   (locate a l = Inr e \<and> (\<forall>t n. get_next_tok a t = Some n \<longrightarrow> t < n) \<and>
    (\<forall>t \<in> set (prefield e). chain_ends a t) \<longrightarrow>
      (\<exists>st. classify e = Some st \<and>
         script a l = Some (Inr (write_tags e st (tags (hit a))))))"
proof (intro conjI impI)
  assume "kws (hit a) = []"
  then show "script a l = Some (Inl IndexError)" by (rule no_keyword_fails)
next
  assume h: "locate a l = Inr e \<and> (\<forall>t n. get_next_tok a t = Some n \<longrightarrow> t < n) \<and>
    (\<forall>t \<in> set (prefield e). chain_ends a t)"
  then have loc: "locate a l = Inr e"
    and right: "\<forall>t n. get_next_tok a t = Some n \<longrightarrow> t < n"
    and chains: "\<forall>t \<in> set (prefield e). chain_ends a t"
    by blast+
  from loc have an: "an e = a" by (rule locate_env)
  have "\<exists>st. classify e = Some st"
  proof (rule classify_returns_on)
    show "\<forall>t n. get_next_tok (an e) t = Some n \<longrightarrow> t < n"
      unfolding an by (rule right)
    show "\<forall>t \<in> set (prefield e). chain_ends (an e) t"
      unfolding an by (rule chains)
  qed
  then obtain st where st: "classify e = Some st" by blast
  from loc st have "script a l = Some (Inr (write_tags e st (tags (hit a))))"
    by (rule script_returns)
  with st show "\<exists>st. classify e = Some st \<and>
      script a l = Some (Inr (write_tags e st (tags (hit a))))"
    by blast
qed

lemma cl_no_anchor_kws: "kws (hit cl_no_anchor) = []"
  by code_simp

lemma cl_cycle_located:
  "kws (hit cl_cycle) = [Suc 0]" "get_head cl_cycle (Suc 0) = Some (Suc 0)"
  "get_w1 cl_cycle (Suc 0) = 0" "Suc 0 \<le> length (toks (hit cl_cycle))"
  by code_simp+

lemma locate_cl_cycle: "locate cl_cycle l = Inr (env_of cl_cycle l (Suc 0) (Suc 0) 0)"
  by (rule locate_eq [OF cl_cycle_located])

lemma cl_cycle_parents:
  "get_parent cl_cycle 0 = Some (Suc 0)" "get_parent cl_cycle (Suc 0) = None"
  "get_parent cl_cycle 2 = Some 3" "get_parent cl_cycle 3 = Some 2"
  by code_simp+

lemma cl_cycle_cyclic: "\<not> acyclic (parent_rel cl_cycle)"
proof -
  have a: "(3, 2) \<in> parent_rel cl_cycle" and b: "(2, 3) \<in> parent_rel cl_cycle"
    by (simp_all add: parent_rel_def cl_cycle_parents)
  from b have "(2, 3) \<in> (parent_rel cl_cycle)\<^sup>+" by (rule r_into_trancl)
  then have "(2, 2) \<in> (parent_rel cl_cycle)\<^sup>+" using a by (rule trancl_into_trancl)
  then show ?thesis unfolding acyclic_def by blast
qed

lemma cl_cycle_contract:
  "\<forall>t n. get_next_tok cl_cycle t = Some n \<longrightarrow> t < n"
  "\<forall>t \<in> set (prefield (env_of cl_cycle ''french'' (Suc 0) (Suc 0) 0)). chain_ends cl_cycle t"
proof -
  show "\<forall>t n. get_next_tok cl_cycle t = Some n \<longrightarrow> t < n"
    by (auto simp: cl_cycle_def tree_an_sel split: if_splits)
  have "chain_ends cl_cycle (Suc 0)"
    by (rule chain_root) (rule cl_cycle_parents)
  then have "chain_ends cl_cycle 0"
    by (rule chain_step [OF cl_cycle_parents(1)])
  then show "\<forall>t \<in> set (prefield (env_of cl_cycle ''french'' (Suc 0) (Suc 0) 0)).
      chain_ends cl_cycle t"
    by (simp add: env_of_def)
qed

theorem anchor_missing_tree_unchecked_witness:
  "kws (hit cl_no_anchor) = [] \<and> script cl_no_anchor ''french'' = Some (Inl IndexError) \<and>
   \<not> acyclic (parent_rel cl_cycle) \<and> (\<exists>tg. script cl_cycle ''french'' = Some (Inr tg))"
proof -
  have "script cl_no_anchor ''french'' = Some (Inl IndexError)"
    using anchor_missing_tree_unchecked [of cl_no_anchor "''french''"] cl_no_anchor_kws
    by simp
  moreover have "\<exists>tg. script cl_cycle ''french'' = Some (Inr tg)"
  proof -
    note t = anchor_missing_tree_unchecked
      [of cl_cycle "''french''" "env_of cl_cycle ''french'' (Suc 0) (Suc 0) 0",
        THEN conjunct2, rule_format]
    have "\<exists>st. classify (env_of cl_cycle ''french'' (Suc 0) (Suc 0) 0) = Some st \<and>
        script cl_cycle ''french'' =
          Some (Inr (write_tags (env_of cl_cycle ''french'' (Suc 0) (Suc 0) 0) st
            (tags (hit cl_cycle))))"
      by (rule t) (intro conjI locate_cl_cycle cl_cycle_contract)
    then show ?thesis by blast
  qed
  ultimately show ?thesis
    using cl_no_anchor_kws cl_cycle_cyclic by simp
qed

text \<open>
  C8 as the specification states it fails on \<open>cl_cycle\<close>: two tokens are each other's
  parent, and the call returns and writes its tags as on any other clause.
\<close>

theorem cyclic_parents_return:
  "get_parent cl_cycle 2 = Some 3 \<and> get_parent cl_cycle 3 = Some 2 \<and>
   entries (script cl_cycle ''french'') [''T-1_form'', ''prefield_countable_heads'', ''prefield''] =
     Some (Inr [Some (Str ''NP''), Some (Str ''Jean''), Some (StrList [''Jean''])])"
  by code_simp

subsection \<open>A cycle in the way of the recursion\<close>

text \<open>
  On \<open>cl_loop\<close> the cycle lies where the recursion of \<^verbatim>\<open>_is_c_element_fr\<close> goes: the
  chain of parents of a prefield token does not end, the function calls itself from one of
  the two tokens to the other, and in the model neither it nor the call has a result. The
  stack limit of Python is not part of the model: there the recursion is ended by a
  \<^verbatim>\<open>RecursionError\<close>, raised while the status lists are built, before anything is written.
\<close>

lemma cl_loop_located:
  "kws (hit cl_loop) = [3]" "get_head cl_loop 3 = Some 3" "get_w1 cl_loop 3 = 0"
  "3 \<le> length (toks (hit cl_loop))"
  by code_simp+

lemma locate_cl_loop: "locate cl_loop l = Inr (env_of cl_loop l 3 3 0)"
  by (rule locate_eq [OF cl_loop_located])

lemma cl_loop_cycle:
  "\<not> could_be_c_head (env_of cl_loop ''french'' 3 3 0) (Suc 0)"
  "\<not> could_be_c_head (env_of cl_loop ''french'' 3 3 0) 2"
  "get_parent (an (env_of cl_loop ''french'' 3 3 0)) (Suc 0) = Some 2"
  "get_parent (an (env_of cl_loop ''french'' 3 3 0)) 2 = Some (Suc 0)"
  "lang (env_of cl_loop ''french'' 3 3 0) = ''french''"
  "prefield (env_of cl_loop ''french'' 3 3 0) = [0, Suc 0, 2]"
  "collect (is_prefield_clitic (env_of cl_loop ''french'' 3 3 0)) [0, Suc 0, 2] =
     Some [False, False, False]"
  "is_c_element (env_of cl_loop ''french'' 3 3 0) 0 = Some False"
  by code_simp+

lemma cl_loop_no_result:
  assumes "is_c_element_fr e tok = Some y"
  shows "e = env_of cl_loop ''french'' 3 3 0 \<longrightarrow> tok \<noteq> Suc 0 \<and> tok \<noteq> 2"
proof (rule is_c_element_fr.raw_induct
    [where P = "\<lambda>e tok y. e = env_of cl_loop ''french'' 3 3 0 \<longrightarrow> tok \<noteq> Suc 0 \<and> tok \<noteq> 2",
      OF _ assms], goal_cases)
  case (1 f e tok y)
  show ?case
  proof (intro impI conjI notI)
    assume e: "e = env_of cl_loop ''french'' 3 3 0" and "tok = Suc 0"
    with 1(2) obtain c where "f e 2 = Some c"
      by (auto simp: cl_loop_cycle split: Option.bind_splits)
    from 1(1) [OF this] e show False by simp
  next
    assume e: "e = env_of cl_loop ''french'' 3 3 0" and "tok = 2"
    with 1(2) obtain c where "f e (Suc 0) = Some c"
      by (auto simp: cl_loop_cycle split: Option.bind_splits)
    from 1(1) [OF this] e show False by simp
  qed
qed

lemma cyclic_parents_diverge:
  "is_c_element_fr (env_of cl_loop ''french'' 3 3 0) (Suc 0) = None \<and>
   script cl_loop ''french'' = None"
proof -
  have none: "is_c_element_fr (env_of cl_loop ''french'' 3 3 0) (Suc 0) = None"
  proof (cases "is_c_element_fr (env_of cl_loop ''french'' 3 3 0) (Suc 0)")
    case None
    then show ?thesis .
  next
    case (Some y)
    from cl_loop_no_result [OF Some] show ?thesis by simp
  qed
  then have "is_c_element (env_of cl_loop ''french'' 3 3 0) (Suc 0) = None"
    by (simp add: is_c_element_def cl_loop_cycle)
  then have "collect (is_c_element (env_of cl_loop ''french'' 3 3 0)) [0, Suc 0, 2] = None"
    by (simp add: cl_loop_cycle)
  then have "classify (env_of cl_loop ''french'' 3 3 0) = None"
    by (simp add: classify_def cl_loop_cycle)
  with none show ?thesis
    by (simp add: script_def locate_cl_loop)
qed

end
